theory Spec2Isabelle
  imports Complex_Main "HOL-Library.Multiset"
begin

section \<open>Shared machinery of the two hash tables\<close>

text \<open>
  Both classes store \<open>int\<close> keys and values, index a \<open>std::vector\<close> with an \<open>int\<close> and
  compute the index with C++'s \<open>%\<close>, which truncates towards zero (the remainder has the
  sign of the dividend). Keys, values, counters and indices are modelled as unbounded
  \<open>int\<close>: the operations only compare keys, copy values and count up to the number of
  stored entries, so 32-bit wrap-around plays no role below 2^30 buckets.

  What C++ leaves undefined or signals by an exception is an error value of the model:
  an index outside the vector, a remainder or quotient by zero, a vector constructed with a
  negative length. A \<open>while\<close> loop that may spin forever is a partial function into
  \<open>option\<close>, where \<open>None\<close> stands for "does not return".
\<close>

datatype error = OutOfBounds | DivByZero | LengthError

definition c_rem :: "int \<Rightarrow> int \<Rightarrow> int" where
  \<comment> \<open>C++ \<open>a % b\<close> for \<open>b \<noteq> 0\<close>: truncated remainder.\<close>
  "c_rem a b = sgn a * (\<bar>a\<bar> mod \<bar>b\<bar>)"

definition c_div :: "int \<Rightarrow> int \<Rightarrow> int" where
  \<comment> \<open>C++ \<open>a / b\<close> for \<open>b \<noteq> 0\<close>: truncated quotient.\<close>
  "c_div a b = sgn a * sgn b * (\<bar>a\<bar> div \<bar>b\<bar>)"

definition in_range :: "'a list \<Rightarrow> int \<Rightarrow> bool" where
  \<comment> \<open>\<open>v[index]\<close> is defined exactly for \<open>0 \<le> index < v.size()\<close>.\<close>
  "in_range v index \<longleftrightarrow> 0 \<le> index \<and> index < int (length v)"

section \<open>HashTableLinearProbing\<close>

record lp_state =
  lp_hash_groups :: int
  lp_elements :: int
  lp_table :: "(int \<times> int) list"

definition lp_construct :: "int \<Rightarrow> error + lp_state" where
  \<comment> \<open>\<open>table(hash_groups)\<close>: value-initialised pairs \<open>(0, 0)\<close>; a negative length throws.\<close>
  "lp_construct n =
     (if n < 0 then Inl LengthError
      else Inr \<lparr>lp_hash_groups = n, lp_elements = 0, lp_table = replicate (nat n) (0, 0)\<rparr>)"

definition load_reached :: "int \<Rightarrow> int \<Rightarrow> bool" where
  \<comment> \<open>\<open>elements >= hash_groups * 0.75\<close>, evaluated in \<open>double\<close>; both sides are exact there.\<close>
  "load_reached e h \<longleftrightarrow> (of_int e :: real) \<ge> of_int h * 0.75"

partial_function (option) resize_scan ::
  "(int \<times> int) list \<Rightarrow> int \<Rightarrow> int \<Rightarrow> (error + int) option" where
  \<comment> \<open>\<open>while (new_table[index].first != 0) index = (index + 1) % hash_groups;\<close>\<close>
  "resize_scan new_table hg index =
     (if \<not> in_range new_table index then Some (Inl OutOfBounds)
      else if fst (new_table ! nat index) \<noteq> 0
        then (if hg = 0 then Some (Inl DivByZero)
              else resize_scan new_table hg (c_rem (index + 1) hg))
      else Some (Inr index))"

fun rehash :: "(int \<times> int) list \<Rightarrow> int \<Rightarrow> (int \<times> int) list \<Rightarrow> (error + (int \<times> int) list) option" where
  \<comment> \<open>\<open>for (const auto &p : table)\<close>: every slot of the old table, empty ones included.\<close>
  "rehash [] hg new_table = Some (Inr new_table)"
| "rehash (p # ps) hg new_table =
     (if hg = 0 then Some (Inl DivByZero)
      else case resize_scan new_table hg (c_rem (fst p) hg) of
             None \<Rightarrow> None
           | Some (Inl e) \<Rightarrow> Some (Inl e)
           | Some (Inr index) \<Rightarrow> rehash ps hg (new_table[nat index := p]))"

definition lp_resize :: "lp_state \<Rightarrow> (error + lp_state) option" where
  "lp_resize t =
     (let hg = lp_hash_groups t * 2 in
      if hg < 0 then Some (Inl LengthError)
      else case rehash (lp_table t) hg (replicate (nat hg) (0, 0)) of
             None \<Rightarrow> None
           | Some (Inl e) \<Rightarrow> Some (Inl e)
           | Some (Inr new_table) \<Rightarrow> Some (Inr (t\<lparr>lp_hash_groups := hg, lp_table := new_table\<rparr>)))"

partial_function (option) insert_scan ::
  "(int \<times> int) list \<Rightarrow> int \<Rightarrow> int \<Rightarrow> int \<Rightarrow> (error + int) option" where
  \<comment> \<open>\<open>while (table[index].first != 0 && table[index].first != key) index = (index + 1) % hash_groups;\<close>\<close>
  "insert_scan tbl hg key index =
     (if \<not> in_range tbl index then Some (Inl OutOfBounds)
      else if fst (tbl ! nat index) \<noteq> 0 \<and> fst (tbl ! nat index) \<noteq> key
        then (if hg = 0 then Some (Inl DivByZero)
              else insert_scan tbl hg key (c_rem (index + 1) hg))
      else Some (Inr index))"

definition lp_place :: "lp_state \<Rightarrow> int \<Rightarrow> int \<Rightarrow> (error + lp_state) option" where
  \<comment> \<open>The body of \<open>insert\<close> after the load check.\<close>
  "lp_place t key val =
     (if lp_hash_groups t = 0 then Some (Inl DivByZero)
      else case insert_scan (lp_table t) (lp_hash_groups t) key (c_rem key (lp_hash_groups t)) of
             None \<Rightarrow> None
           | Some (Inl e) \<Rightarrow> Some (Inl e)
           | Some (Inr index) \<Rightarrow>
               Some (Inr (t\<lparr>lp_elements :=
                               (if fst (lp_table t ! nat index) \<noteq> key then lp_elements t + 1
                                else lp_elements t),
                             lp_table := (lp_table t)[nat index := (key, val)]\<rparr>)))"

definition lp_insert :: "lp_state \<Rightarrow> int \<Rightarrow> int \<Rightarrow> (error + lp_state) option" where
  "lp_insert t key val =
     (if load_reached (lp_elements t) (lp_hash_groups t)
      then (case lp_resize t of
              None \<Rightarrow> None
            | Some (Inl e) \<Rightarrow> Some (Inl e)
            | Some (Inr t') \<Rightarrow> lp_place t' key val)
      else lp_place t key val)"

partial_function (option) remove_scan ::
  "(int \<times> int) list \<Rightarrow> int \<Rightarrow> int \<Rightarrow> int \<Rightarrow> (error + int) option" where
  \<comment> \<open>\<open>while (table[index].first != key) index = (index + 1) % hash_groups;\<close>\<close>
  "remove_scan tbl hg key index =
     (if \<not> in_range tbl index then Some (Inl OutOfBounds)
      else if fst (tbl ! nat index) \<noteq> key
        then (if hg = 0 then Some (Inl DivByZero)
              else remove_scan tbl hg key (c_rem (index + 1) hg))
      else Some (Inr index))"

definition lp_remove :: "lp_state \<Rightarrow> int \<Rightarrow> (error + lp_state) option" where
  "lp_remove t key =
     (if lp_hash_groups t = 0 then Some (Inl DivByZero)
      else case remove_scan (lp_table t) (lp_hash_groups t) key (c_rem key (lp_hash_groups t)) of
             None \<Rightarrow> None
           | Some (Inl e) \<Rightarrow> Some (Inl e)
           | Some (Inr index) \<Rightarrow>
               Some (Inr (t\<lparr>lp_elements := lp_elements t - 1,
                             lp_table := (lp_table t)[nat index := (0, 0)]\<rparr>)))"

partial_function (option) get_scan ::
  "(int \<times> int) list \<Rightarrow> int \<Rightarrow> int \<Rightarrow> int \<Rightarrow> int \<Rightarrow> nat \<Rightarrow> (error + int \<times> nat) option" where
  \<comment> \<open>The loop of \<open>get\<close>. The last argument counts the slots read so far and is returned
      next to the value; the source has no such counter.\<close>
  "get_scan tbl hg key start_index index probes =
     (if \<not> in_range tbl index then Some (Inl OutOfBounds)
      else if fst (tbl ! nat index) \<noteq> 0
        then (if fst (tbl ! nat index) = key then Some (Inr (snd (tbl ! nat index), probes + 1))
              else if hg = 0 then Some (Inl DivByZero)
              else if c_rem (index + 1) hg = start_index then Some (Inr (- 1, probes + 1))
              else get_scan tbl hg key start_index (c_rem (index + 1) hg) (probes + 1))
      else Some (Inr (- 1, probes + 1)))"

definition lp_get_probes :: "lp_state \<Rightarrow> int \<Rightarrow> (error + int \<times> nat) option" where
  \<comment> \<open>\<open>get\<close> together with the number of slots it read.\<close>
  "lp_get_probes t key =
     (if lp_hash_groups t = 0 then Some (Inl DivByZero)
      else get_scan (lp_table t) (lp_hash_groups t) key
             (c_rem key (lp_hash_groups t)) (c_rem key (lp_hash_groups t)) 0)"

definition lp_get :: "lp_state \<Rightarrow> int \<Rightarrow> (error + int) option" where
  "lp_get t key = map_option (map_sum id fst) (lp_get_probes t key)"

datatype op = Insert int int | Remove int

fun lp_run :: "lp_state \<Rightarrow> op list \<Rightarrow> (error + lp_state) option" where
  \<comment> \<open>A caller's sequence of calls on one table, stopping where a call does not return.\<close>
  "lp_run t [] = Some (Inr t)"
| "lp_run t (Insert k v # ops) =
     (case lp_insert t k v of
        None \<Rightarrow> None | Some (Inl e) \<Rightarrow> Some (Inl e) | Some (Inr t') \<Rightarrow> lp_run t' ops)"
| "lp_run t (Remove k # ops) =
     (case lp_remove t k of
        None \<Rightarrow> None | Some (Inl e) \<Rightarrow> Some (Inl e) | Some (Inr t') \<Rightarrow> lp_run t' ops)"

definition lp_new_run :: "int \<Rightarrow> op list \<Rightarrow> (error + lp_state) option" where
  "lp_new_run n ops = (case lp_construct n of Inl e \<Rightarrow> Some (Inl e) | Inr t \<Rightarrow> lp_run t ops)"

definition demo_ops :: "op list" where
  \<comment> \<open>The calls of \<open>main\<close> that change the table, in order.\<close>
  "demo_ops = [Insert 1 100, Insert 2 200, Insert 3 300, Remove 2]
              @ map (\<lambda>i. Insert i (i * 100)) [4..20]"

definition occupied :: "(int \<times> int) list \<Rightarrow> nat" where
  \<comment> \<open>Number of slots whose key is not the empty marker 0.\<close>
  "occupied tbl = length (filter (\<lambda>p. fst p \<noteq> 0) tbl)"

section \<open>HashTableSeparateChaining\<close>

record sc_state =
  sc_hash_groups :: int
  sc_elements :: int
  sc_table :: "(int \<times> int) list list"

definition sc_construct :: "int \<Rightarrow> error + sc_state" where
  "sc_construct n =
     (if n < 0 then Inl LengthError
      else Inr \<lparr>sc_hash_groups = n, sc_elements = 0, sc_table = replicate (nat n) []\<rparr>)"

fun rehash_group ::
  "(int \<times> int) list \<Rightarrow> int \<Rightarrow> (int \<times> int) list list \<Rightarrow> error + (int \<times> int) list list" where
  \<comment> \<open>\<open>for (auto &pair : group)\<close> with \<open>hg2 = hash_groups * 2\<close>.\<close>
  "rehash_group [] hg2 new_table = Inr new_table"
| "rehash_group (p # ps) hg2 new_table =
     (if hg2 = 0 then Inl DivByZero
      else if \<not> in_range new_table (c_rem (fst p) hg2) then Inl OutOfBounds
      else rehash_group ps hg2
             (new_table[nat (c_rem (fst p) hg2) :=
                          new_table ! nat (c_rem (fst p) hg2) @ [(fst p, snd p)]]))"

fun rehash_groups ::
  "(int \<times> int) list list \<Rightarrow> int \<Rightarrow> (int \<times> int) list list \<Rightarrow> error + (int \<times> int) list list" where
  \<comment> \<open>\<open>for (auto &group : table)\<close>\<close>
  "rehash_groups [] hg2 new_table = Inr new_table"
| "rehash_groups (g # gs) hg2 new_table =
     (case rehash_group g hg2 new_table of
        Inl e \<Rightarrow> Inl e
      | Inr new_table' \<Rightarrow> rehash_groups gs hg2 new_table')"

definition sc_resize :: "sc_state \<Rightarrow> error + sc_state" where
  "sc_resize t =
     (if sc_hash_groups t = 0 then Inl DivByZero
      else if c_div (sc_elements t) (sc_hash_groups t) < 3 then Inr t
      else if sc_hash_groups t * 2 < 0 then Inl LengthError
      else case rehash_groups (sc_table t) (sc_hash_groups t * 2)
                  (replicate (nat (sc_hash_groups t * 2)) []) of
             Inl e \<Rightarrow> Inl e
           | Inr new_table \<Rightarrow>
               Inr (t\<lparr>sc_table := new_table, sc_hash_groups := sc_hash_groups t * 2\<rparr>))"

definition sc_insert :: "sc_state \<Rightarrow> int \<Rightarrow> int \<Rightarrow> error + sc_state" where
  "sc_insert t key val =
     (if sc_hash_groups t = 0 then Inl DivByZero
      else let group = c_rem key (sc_hash_groups t) in
        if \<not> in_range (sc_table t) group then Inl OutOfBounds
        else sc_resize (t\<lparr>sc_table := (sc_table t)[nat group := sc_table t ! nat group @ [(key, val)]],
                          sc_elements := sc_elements t + 1\<rparr>))"

fun erase_first :: "int \<Rightarrow> (int \<times> int) list \<Rightarrow> (int \<times> int) list option" where
  \<comment> \<open>The loop of \<open>remove\<close> on one chain: the chain without its first entry for \<open>key\<close>,
      or \<open>None\<close> when the loop ends without a match.\<close>
  "erase_first key [] = None"
| "erase_first key (p # ps) =
     (if fst p = key then Some ps else map_option (Cons p) (erase_first key ps))"

definition sc_remove :: "sc_state \<Rightarrow> int \<Rightarrow> error + sc_state" where
  "sc_remove t key =
     (if sc_hash_groups t = 0 then Inl DivByZero
      else let group = c_rem key (sc_hash_groups t) in
        if \<not> in_range (sc_table t) group then Inl OutOfBounds
        else case erase_first key (sc_table t ! nat group) of
               None \<Rightarrow> Inr t
             | Some chain \<Rightarrow>
                 Inr (t\<lparr>sc_table := (sc_table t)[nat group := chain],
                        sc_elements := sc_elements t - 1\<rparr>))"

fun first_match :: "int \<Rightarrow> (int \<times> int) list \<Rightarrow> int" where
  \<comment> \<open>The loop of \<open>get\<close> on one chain.\<close>
  "first_match key [] = - 1"
| "first_match key (p # ps) = (if fst p = key then snd p else first_match key ps)"

definition sc_get :: "sc_state \<Rightarrow> int \<Rightarrow> error + int" where
  "sc_get t key =
     (if sc_hash_groups t = 0 then Inl DivByZero
      else let group = c_rem key (sc_hash_groups t) in
        if \<not> in_range (sc_table t) group then Inl OutOfBounds
        else Inr (first_match key (sc_table t ! nat group)))"

fun sc_run :: "sc_state \<Rightarrow> op list \<Rightarrow> error + sc_state" where
  "sc_run t [] = Inr t"
| "sc_run t (Insert k v # ops) =
     (case sc_insert t k v of Inl e \<Rightarrow> Inl e | Inr t' \<Rightarrow> sc_run t' ops)"
| "sc_run t (Remove k # ops) =
     (case sc_remove t k of Inl e \<Rightarrow> Inl e | Inr t' \<Rightarrow> sc_run t' ops)"

definition sc_new_run :: "int \<Rightarrow> op list \<Rightarrow> error + sc_state" where
  "sc_new_run n ops = (case sc_construct n of Inl e \<Rightarrow> Inl e | Inr t \<Rightarrow> sc_run t ops)"

section \<open>Notions used to state the properties\<close>

definition spec_index :: "int \<Rightarrow> int \<Rightarrow> int" where
  \<comment> \<open>The bucket index as the specification words it, \<open>((key % n) + n) % n\<close>, read with
      C++'s \<open>%\<close>. The operations above do not use it: they compute \<open>key % hash_groups\<close>.\<close>
  "spec_index key n = c_rem (c_rem key n + n) n"

subsection \<open>Probing table\<close>

definition home :: "nat \<Rightarrow> int \<Rightarrow> nat" where
  \<comment> \<open>The home index \<open>key % hash_groups\<close> of a key in a table of \<open>n\<close> slots.\<close>
  "home n key = nat (c_rem key (int n))"

definition probe_ok :: "(int \<times> int) list \<Rightarrow> bool" where
  \<comment> \<open>Every occupied slot is reached from the home index of its key, scanning forward and
      wrapping around, before any empty slot.\<close>
  "probe_ok tbl \<longleftrightarrow>
     (\<forall>i\<in>set [0..<length tbl]. fst (tbl ! i) \<noteq> 0 \<longrightarrow>
        (\<exists>d\<in>set [0..<length tbl].
           (home (length tbl) (fst (tbl ! i)) + d) mod length tbl = i \<and>
           (\<forall>d'\<in>set [0..<d].
              fst (tbl ! ((home (length tbl) (fst (tbl ! i)) + d') mod length tbl)) \<noteq> 0)))"

definition stored :: "(int \<times> int) list \<Rightarrow> (int \<times> int) multiset" where
  \<comment> \<open>The entries held by the occupied slots.\<close>
  "stored tbl = mset (filter (\<lambda>p. fst p \<noteq> 0) tbl)"

definition lp_inv :: "lp_state \<Rightarrow> bool" where
  \<comment> \<open>What every table built by the constructor and changed by \<open>insert\<close> alone satisfies.\<close>
  "lp_inv t \<longleftrightarrow>
     0 < lp_hash_groups t \<and> length (lp_table t) = nat (lp_hash_groups t) \<and>
     lp_elements t = int (occupied (lp_table t)) \<and>
     (\<forall>p\<in>set (lp_table t). 0 \<le> fst p) \<and>
     distinct (map fst (filter (\<lambda>p. fst p \<noteq> 0) (lp_table t))) \<and>
     probe_ok (lp_table t)"

definition slot_at :: "(int \<times> int) list \<Rightarrow> int \<Rightarrow> nat \<Rightarrow> int \<times> int" where
  \<comment> \<open>The slot read at step \<open>d\<close> of the scan that starts at the home index of \<open>key\<close>.\<close>
  "slot_at tbl key d = tbl ! ((home (length tbl) key + d) mod length tbl)"

definition get_result :: "int \<times> int \<Rightarrow> int \<Rightarrow> bool \<Rightarrow> int \<Rightarrow> bool" where
  \<comment> \<open>The value \<open>get\<close> returns when its scan ends at \<open>slot\<close>: \<open>-1\<close> at an empty slot, the stored
      value at a match, \<open>-1\<close> when the next index is the start index again.\<close>
  "get_result slot key wrapped v \<longleftrightarrow>
     (fst slot = 0 \<and> v = - 1) \<or>
     (fst slot \<noteq> 0 \<and> fst slot = key \<and> v = snd slot) \<or>
     (fst slot \<noteq> 0 \<and> fst slot \<noteq> key \<and> wrapped \<and> v = - 1)"

definition lp_map :: "(int \<times> int) list \<Rightarrow> int \<rightharpoonup> int" where
  \<comment> \<open>The mapping from keys to values that the occupied slots represent.\<close>
  "lp_map tbl = map_of (filter (\<lambda>p. fst p \<noteq> 0) tbl)"

subsection \<open>Chained table\<close>

definition chain_values :: "int \<Rightarrow> (int \<times> int) list \<Rightarrow> int list" where
  \<comment> \<open>The values a chain holds for \<open>key\<close>, in chain order.\<close>
  "chain_values key chain = map snd (filter (\<lambda>p. fst p = key) chain)"

definition sc_values :: "sc_state \<Rightarrow> int \<Rightarrow> int list" where
  \<comment> \<open>The values held for \<open>key\<close> by the chain that \<open>key % hash_groups\<close> selects, in chain order.\<close>
  "sc_values s key = chain_values key (sc_table s ! nat (c_rem key (sc_hash_groups s)))"

definition sc_inv :: "sc_state \<Rightarrow> bool" where
  \<comment> \<open>Every entry has a non-negative key and sits in the chain that its key selects.\<close>
  "sc_inv s \<longleftrightarrow>
     0 < sc_hash_groups s \<and> length (sc_table s) = nat (sc_hash_groups s) \<and>
     (\<forall>g\<in>set [0..<length (sc_table s)]. \<forall>p\<in>set (sc_table s ! g).
        0 \<le> fst p \<and> home (length (sc_table s)) (fst p) = g)"

fun op_key :: "op \<Rightarrow> int" where
  "op_key (Insert k v) = k"
| "op_key (Remove k) = k"

section \<open>Arithmetic of the index computation\<close>

declare resize_scan.simps [code] insert_scan.simps [code] remove_scan.simps [code]
  get_scan.simps [code]

lemma load_reached_int [code]: "load_reached e h \<longleftrightarrow> 3 * h \<le> 4 * e"
proof -
  have "((of_int e :: real) \<ge> of_int h * 0.75) \<longleftrightarrow> (of_int (3 * h) :: real) \<le> of_int (4 * e)"
    by (simp add: field_simps)
  then show ?thesis
    unfolding load_reached_def by (simp only: of_int_le_iff)
qed

lemma c_rem_nat: "c_rem (int a) (int b) = int (a mod b)"
  by (cases "a = 0") (simp_all add: c_rem_def zmod_int)

lemma c_rem_nonneg: "0 \<le> a \<Longrightarrow> 0 < b \<Longrightarrow> c_rem a b = a mod b"
  by (cases "a = 0") (simp_all add: c_rem_def)

lemma mod_add_inj:
  fixes h a b n :: nat
  assumes "a < n" "b < n" "(h + a) mod n = (h + b) mod n"
  shows "a = b"
proof -
  have aux: "x = y" if "x \<le> y" "y < n" "(h + x) mod n = (h + y) mod n" for x y :: nat
  proof -
    have "n dvd (h + y) - (h + x)"
      using that by (metis add_le_cancel_left mod_eq_dvd_iff_nat)
    then have "n dvd y - x" by simp
    moreover have "y - x < n" using that by simp
    ultimately have "y - x = 0" by (meson dvd_imp_le not_less zero_less_iff_neq_zero)
    then show ?thesis using that by simp
  qed
  show ?thesis
  proof (cases "a \<le> b")
    case True
    then show ?thesis using aux assms by blast
  next
    case False
    then have "b = a" using aux [of b a] assms by simp
    then show ?thesis by simp
  qed
qed

lemma reach_slot:
  fixes i k n :: nat
  assumes "i < n" "k < n"
  shows "(i + (k + n - i) mod n) mod n = k"
  by (metis add.commute add_lessD1 assms(1,2) le_add_diff_inverse
    mod_add_right_eq mod_add_self1 mod_less not_le_imp_less
    order.asym)

lemma step_shift: "(Suc i mod n + j) mod n = (i + Suc j) mod n"
  by (simp add: mod_add_left_eq)

lemma shift_all:
  assumes "\<forall>d'<Suc d. Q ((i + d') mod n)"
  shows "\<forall>d'<d. Q ((Suc i mod n + d') mod n)"
proof (intro allI impI)
  fix d' assume "d' < d"
  then have "Suc d' < Suc d" by simp
  with assms have "Q ((i + Suc d') mod n)" by blast
  then show "Q ((Suc i mod n + d') mod n)" by (simp add: step_shift)
qed

lemma c_rem_succ: "c_rem (int i + 1) (int n) = int (Suc i mod n)"
  using c_rem_nat [of "Suc i" n] by (simp add: ac_simps)

lemma first_stop:
  fixes i k n :: nat
  assumes "i < n" "k < n" "P k"
  obtains d where "d < n" "P ((i + d) mod n)" "\<forall>d'<d. \<not> P ((i + d') mod n)"
proof -
  let ?Q = "\<lambda>d. P ((i + d) mod n)"
  have q: "?Q ((k + n - i) mod n)" using assms reach_slot by simp
  define d where "d = (LEAST d. ?Q d)"
  have 1: "?Q d" unfolding d_def using q by (rule LeastI)
  have "d \<le> (k + n - i) mod n" unfolding d_def using q by (rule Least_le)
  moreover have "(k + n - i) mod n < n" using assms by simp
  ultimately have 2: "d < n" by simp
  have 3: "\<forall>d'<d. \<not> ?Q d'" unfolding d_def using not_less_Least by blast
  show ?thesis using that 1 2 3 by blast
qed

lemma distinct_filter_nth:
  "distinct (map f (filter P xs)) \<Longrightarrow> i < length xs \<Longrightarrow> j < length xs \<Longrightarrow> P (xs ! i) \<Longrightarrow> P (xs ! j)
   \<Longrightarrow> f (xs ! i) = f (xs ! j) \<Longrightarrow> i = j"
proof (induction xs arbitrary: i j)
  case Nil
  then show ?case by simp
next
  case (Cons x xs)
  have out: "f x \<noteq> f (xs ! m)" if "P x" "m < length xs" "P (xs ! m)" for m
  proof -
    have "f (xs ! m) \<in> f ` set (filter P xs)" using that by simp
    then show ?thesis using Cons.prems(1) that(1) by auto
  qed
  show ?case
  proof (cases i)
    case 0
    then show ?thesis using Cons.prems out by (cases j) auto
  next
    case (Suc i')
    show ?thesis
    proof (cases j)
      case 0
      then show ?thesis using Cons.prems out Suc by (metis length_Cons not_less_eq nth_Cons_0 nth_Cons_Suc less_Suc_eq_0_disj nat.inject)
    next
      case (Suc j')
      have "distinct (map f (filter P xs))" using Cons.prems(1) by (simp split: if_splits)
      then have "i' = j'" using Cons.IH [of i' j'] Cons.prems Suc \<open>i = Suc i'\<close> by simp
      then show ?thesis using Suc \<open>i = Suc i'\<close> by simp
    qed
  qed
qed

lemma insert_scan_steps:
  assumes "length tbl = n" "i < n"
    and "\<forall>d'<d. fst (tbl ! ((i + d') mod n)) \<noteq> 0 \<and> fst (tbl ! ((i + d') mod n)) \<noteq> key"
    and "fst (tbl ! ((i + d) mod n)) = 0 \<or> fst (tbl ! ((i + d) mod n)) = key"
  shows "insert_scan tbl (int n) key (int i) = Some (Inr (int ((i + d) mod n)))"
  using assms(2-)
proof (induction d arbitrary: i)
  case 0
  then show ?case using assms(1) by (subst insert_scan.simps) (auto simp: in_range_def)
next
  case (Suc d)
  have here: "fst (tbl ! i) \<noteq> 0 \<and> fst (tbl ! i) \<noteq> key"
    using Suc.prems(2) [rule_format, of 0] Suc.prems(1) by simp
  have "insert_scan tbl (int n) key (int (Suc i mod n)) = Some (Inr (int ((Suc i mod n + d) mod n)))"
  proof (rule Suc.IH)
    show "Suc i mod n < n" using Suc.prems(1) by simp
    show "\<forall>d'<d. fst (tbl ! ((Suc i mod n + d') mod n)) \<noteq> 0 \<and> fst (tbl ! ((Suc i mod n + d') mod n)) \<noteq> key"
      using Suc.prems(2) by (rule shift_all)
    show "fst (tbl ! ((Suc i mod n + d) mod n)) = 0 \<or> fst (tbl ! ((Suc i mod n + d) mod n)) = key"
      using Suc.prems(3) by (simp add: step_shift)
  qed
  then show ?case
    using here Suc.prems(1) assms(1)
    by (subst insert_scan.simps) (simp add: in_range_def c_rem_succ step_shift)
qed

lemma resize_scan_steps:
  assumes "length tbl = n" "i < n"
    and "\<forall>d'<d. fst (tbl ! ((i + d') mod n)) \<noteq> 0"
    and "fst (tbl ! ((i + d) mod n)) = 0"
  shows "resize_scan tbl (int n) (int i) = Some (Inr (int ((i + d) mod n)))"
  using assms(2-)
proof (induction d arbitrary: i)
  case 0
  then show ?case using assms(1) by (subst resize_scan.simps) (auto simp: in_range_def)
next
  case (Suc d)
  have here: "fst (tbl ! i) \<noteq> 0"
    using Suc.prems(2) [rule_format, of 0] Suc.prems(1) by simp
  have "resize_scan tbl (int n) (int (Suc i mod n)) = Some (Inr (int ((Suc i mod n + d) mod n)))"
  proof (rule Suc.IH)
    show "Suc i mod n < n" using Suc.prems(1) by simp
    show "\<forall>d'<d. fst (tbl ! ((Suc i mod n + d') mod n)) \<noteq> 0"
      using Suc.prems(2) by (rule shift_all)
    show "fst (tbl ! ((Suc i mod n + d) mod n)) = 0"
      using Suc.prems(3) by (simp add: step_shift)
  qed
  then show ?case
    using here Suc.prems(1) assms(1)
    by (subst resize_scan.simps) (simp add: in_range_def c_rem_succ step_shift)
qed

lemma remove_scan_steps:
  assumes "length tbl = n" "i < n"
    and "\<forall>d'<d. fst (tbl ! ((i + d') mod n)) \<noteq> key"
    and "fst (tbl ! ((i + d) mod n)) = key"
  shows "remove_scan tbl (int n) key (int i) = Some (Inr (int ((i + d) mod n)))"
  using assms(2-)
proof (induction d arbitrary: i)
  case 0
  then show ?case using assms(1) by (subst remove_scan.simps) (auto simp: in_range_def)
next
  case (Suc d)
  have here: "fst (tbl ! i) \<noteq> key"
    using Suc.prems(2) [rule_format, of 0] Suc.prems(1) by simp
  have "remove_scan tbl (int n) key (int (Suc i mod n)) = Some (Inr (int ((Suc i mod n + d) mod n)))"
  proof (rule Suc.IH)
    show "Suc i mod n < n" using Suc.prems(1) by simp
    show "\<forall>d'<d. fst (tbl ! ((Suc i mod n + d') mod n)) \<noteq> key"
      using Suc.prems(2) by (rule shift_all)
    show "fst (tbl ! ((Suc i mod n + d) mod n)) = key"
      using Suc.prems(3) by (simp add: step_shift)
  qed
  then show ?case
    using here Suc.prems(1) assms(1)
    by (subst remove_scan.simps) (simp add: in_range_def c_rem_succ step_shift)
qed

section \<open>The probe-sequence invariant\<close>

lemma probe_ok_iff:
  "probe_ok tbl \<longleftrightarrow>
     (\<forall>i<length tbl. fst (tbl ! i) \<noteq> 0 \<longrightarrow>
        (\<exists>d<length tbl.
           (home (length tbl) (fst (tbl ! i)) + d) mod length tbl = i \<and>
           (\<forall>d'<d. fst (tbl ! ((home (length tbl) (fst (tbl ! i)) + d') mod length tbl)) \<noteq> 0)))"
  by (simp add: probe_ok_def Ball_def Bex_def)

section \<open>The loop of get\<close>

lemma next_index: "c_rem (int ((s + e) mod n) + 1) (int n) = int (Suc (s + e) mod n)"
  by (simp add: c_rem_succ mod_Suc_eq)

lemma get_scan_run:
  assumes len: "length tbl = n" and s: "s < n" and e: "e < n"
  shows "\<forall>c. \<exists>v d. e \<le> d \<and> d < n \<and>
           get_scan tbl (int n) key (int s) (int ((s + e) mod n)) c = Some (Inr (v, c + (d - e) + 1)) \<and>
           (\<forall>d'. e \<le> d' \<and> d' < d \<longrightarrow>
              fst (tbl ! ((s + d') mod n)) \<noteq> 0 \<and> fst (tbl ! ((s + d') mod n)) \<noteq> key) \<and>
           get_result (tbl ! ((s + d) mod n)) key (d + 1 = n) v"
proof -
  have rng: "in_range tbl (int ((s + x) mod n))" for x
    using len s by (simp add: in_range_def)
  have stop: "\<exists>v d. e' \<le> d \<and> d < n \<and>
           get_scan tbl (int n) key (int s) (int ((s + e') mod n)) c = Some (Inr (v, c + (d - e') + 1)) \<and>
           (\<forall>d'. e' \<le> d' \<and> d' < d \<longrightarrow>
              fst (tbl ! ((s + d') mod n)) \<noteq> 0 \<and> fst (tbl ! ((s + d') mod n)) \<noteq> key) \<and>
           get_result (tbl ! ((s + d) mod n)) key (d + 1 = n) v"
    if "e' < n" "fst (tbl ! ((s + e') mod n)) = 0 \<or> fst (tbl ! ((s + e') mod n)) = key" for e' c
  proof -
    let ?v = "if fst (tbl ! ((s + e') mod n)) = 0 then - 1 else snd (tbl ! ((s + e') mod n))"
    have "get_scan tbl (int n) key (int s) (int ((s + e') mod n)) c = Some (Inr (?v, c + (e' - e') + 1))"
      using that rng [of e'] by (subst get_scan.simps) auto
    moreover have "get_result (tbl ! ((s + e') mod n)) key (e' + 1 = n) ?v"
      using that by (auto simp: get_result_def)
    ultimately show ?thesis using that(1) by (intro exI [of _ ?v] exI [of _ e']) auto
  qed
  have last: "\<exists>v d. e' \<le> d \<and> d < n \<and>
           get_scan tbl (int n) key (int s) (int ((s + e') mod n)) c = Some (Inr (v, c + (d - e') + 1)) \<and>
           (\<forall>d'. e' \<le> d' \<and> d' < d \<longrightarrow>
              fst (tbl ! ((s + d') mod n)) \<noteq> 0 \<and> fst (tbl ! ((s + d') mod n)) \<noteq> key) \<and>
           get_result (tbl ! ((s + d) mod n)) key (d + 1 = n) v"
    if "Suc e' = n" "\<not> (fst (tbl ! ((s + e') mod n)) = 0 \<or> fst (tbl ! ((s + e') mod n)) = key)" for e' c
  proof -
    have wrap: "Suc (s + e') mod n = s" using s that(1) by (metis add_Suc_right mod_add_self2 mod_less)
    have "get_scan tbl (int n) key (int s) (int ((s + e') mod n)) c = Some (Inr (- 1, c + (e' - e') + 1))"
      using that(2) rng [of e'] s
      by (subst get_scan.simps) (simp add: next_index wrap del: of_nat_add)
    moreover have "get_result (tbl ! ((s + e') mod n)) key (e' + 1 = n) (- 1)"
      using that by (simp add: get_result_def)
    ultimately show ?thesis using that(1) by (intro exI [of _ "- 1"] exI [of _ e']) auto
  qed
  have "e \<le> n - 1" using e by simp
  then show ?thesis
  proof (induction e rule: inc_induct)
    case base
    show ?case
    proof
      fix c
      show "\<exists>v d. n - 1 \<le> d \<and> d < n \<and>
           get_scan tbl (int n) key (int s) (int ((s + (n - 1)) mod n)) c = Some (Inr (v, c + (d - (n - 1)) + 1)) \<and>
           (\<forall>d'. n - 1 \<le> d' \<and> d' < d \<longrightarrow>
              fst (tbl ! ((s + d') mod n)) \<noteq> 0 \<and> fst (tbl ! ((s + d') mod n)) \<noteq> key) \<and>
           get_result (tbl ! ((s + d) mod n)) key (d + 1 = n) v"
      proof (cases "fst (tbl ! ((s + (n - 1)) mod n)) = 0 \<or> fst (tbl ! ((s + (n - 1)) mod n)) = key")
        case True
        then show ?thesis using stop [of "n - 1" c] s by simp
      next
        case False
        then show ?thesis using last [of "n - 1" c] s by simp
      qed
    qed
  next
    case (step e)
    show ?case
    proof
      fix c
      show "\<exists>v d. e \<le> d \<and> d < n \<and>
           get_scan tbl (int n) key (int s) (int ((s + e) mod n)) c = Some (Inr (v, c + (d - e) + 1)) \<and>
           (\<forall>d'. e \<le> d' \<and> d' < d \<longrightarrow>
              fst (tbl ! ((s + d') mod n)) \<noteq> 0 \<and> fst (tbl ! ((s + d') mod n)) \<noteq> key) \<and>
           get_result (tbl ! ((s + d) mod n)) key (d + 1 = n) v"
      proof (cases "fst (tbl ! ((s + e) mod n)) = 0 \<or> fst (tbl ! ((s + e) mod n)) = key")
        case True
        then show ?thesis using stop [of e c] step.hyps by simp
      next
        case False
        have "Suc e < n" using step.hyps by simp
        have nowrap: "Suc (s + e) mod n \<noteq> s"
        proof
          assume "Suc (s + e) mod n = s"
          then have "(s + Suc e) mod n = (s + 0) mod n" using s by simp
          then have "Suc e = 0" using \<open>Suc e < n\<close> by (intro mod_add_inj [of "Suc e" n 0 s]) auto
          then show False by simp
        qed
        obtain v d where vd: "Suc e \<le> d" "d < n"
          "get_scan tbl (int n) key (int s) (int ((s + Suc e) mod n)) (c + 1) = Some (Inr (v, c + 1 + (d - Suc e) + 1))"
          "\<forall>d'. Suc e \<le> d' \<and> d' < d \<longrightarrow>
              fst (tbl ! ((s + d') mod n)) \<noteq> 0 \<and> fst (tbl ! ((s + d') mod n)) \<noteq> key"
          "get_result (tbl ! ((s + d) mod n)) key (d + 1 = n) v"
          using step.IH by blast
        have "get_scan tbl (int n) key (int s) (int ((s + e) mod n)) c = Some (Inr (v, c + (d - e) + 1))"
          using False rng [of e] s nowrap vd(1,3) \<open>Suc e < n\<close>
          by (subst get_scan.simps) (simp add: next_index del: of_nat_add)
        moreover have "\<forall>d'. e \<le> d' \<and> d' < d \<longrightarrow>
              fst (tbl ! ((s + d') mod n)) \<noteq> 0 \<and> fst (tbl ! ((s + d') mod n)) \<noteq> key"
          using vd(4) False by (metis Suc_leI le_neq_implies_less)
        ultimately show ?thesis using vd(1,2,5) by (intro exI [of _ v] exI [of _ d]) auto
      qed
    qed
  qed
qed

lemma home_nonneg:
  assumes "0 \<le> key" "0 < n"
  shows "c_rem key (int n) = int (home n key)" "home n key < n"
proof -
  have "c_rem key (int n) = key mod int n" using assms by (simp add: c_rem_nonneg)
  moreover have "0 \<le> key mod int n" "key mod int n < int n" using assms by simp_all
  ultimately show "c_rem key (int n) = int (home n key)" "home n key < n"
    by (simp_all add: home_def)
qed

lemma lp_get_run:
  assumes "0 < lp_hash_groups t" "length (lp_table t) = nat (lp_hash_groups t)" "0 \<le> key"
  shows "\<exists>v d. d < length (lp_table t) \<and> lp_get_probes t key = Some (Inr (v, d + 1)) \<and>
           lp_get t key = Some (Inr v) \<and>
           (\<forall>d'<d. fst (slot_at (lp_table t) key d') \<noteq> 0 \<and> fst (slot_at (lp_table t) key d') \<noteq> key) \<and>
           get_result (slot_at (lp_table t) key d) key (d + 1 = length (lp_table t)) v"
proof -
  let ?n = "length (lp_table t)"
  have n: "0 < ?n" "lp_hash_groups t = int ?n" using assms by simp_all
  have h: "c_rem key (int ?n) = int (home ?n key)" "home ?n key < ?n"
    using home_nonneg [OF assms(3) n(1)] by simp_all
  obtain v d where vd: "d < ?n"
    "get_scan (lp_table t) (int ?n) key (int (home ?n key)) (int ((home ?n key + 0) mod ?n)) 0
       = Some (Inr (v, 0 + (d - 0) + 1))"
    "\<forall>d'. 0 \<le> d' \<and> d' < d \<longrightarrow> fst (lp_table t ! ((home ?n key + d') mod ?n)) \<noteq> 0 \<and>
        fst (lp_table t ! ((home ?n key + d') mod ?n)) \<noteq> key"
    "get_result (lp_table t ! ((home ?n key + d) mod ?n)) key (d + 1 = ?n) v"
    using get_scan_run [where tbl = "lp_table t" and n = ?n and s = "home ?n key" and e = 0 and key = key] h(2) n(1) by blast
  have "lp_get_probes t key = Some (Inr (v, d + 1))"
    using vd(2) h n by (simp add: lp_get_probes_def)
  then show ?thesis
    using vd(1,3,4) by (intro exI [of _ v] exI [of _ d]) (simp add: lp_get_def slot_at_def)
qed

section \<open>remove on the probing table\<close>

lemma lp_remove_run:
  assumes "0 < lp_hash_groups t" "length (lp_table t) = nat (lp_hash_groups t)" "0 \<le> key"
    and "key \<in> fst ` set (lp_table t)"
  shows "\<exists>d<length (lp_table t).
           fst (slot_at (lp_table t) key d) = key \<and>
           (\<forall>d'<d. fst (slot_at (lp_table t) key d') \<noteq> key) \<and>
           lp_remove t key =
             Some (Inr (t\<lparr>lp_elements := lp_elements t - 1,
                          lp_table := (lp_table t)
                            [(home (length (lp_table t)) key + d) mod length (lp_table t) := (0, 0)]\<rparr>))"
proof -
  let ?n = "length (lp_table t)"
  let ?h = "home ?n key"
  have n: "0 < ?n" "lp_hash_groups t = int ?n" using assms by simp_all
  have h: "c_rem key (int ?n) = int ?h" "?h < ?n"
    using home_nonneg [OF assms(3) n(1)] by simp_all
  obtain k where k: "k < ?n" "fst (lp_table t ! k) = key"
    using assms(4) by (auto simp: in_set_conv_nth)
  obtain d where d: "d < ?n" "fst (lp_table t ! ((?h + d) mod ?n)) = key"
    "\<forall>d'<d. \<not> fst (lp_table t ! ((?h + d') mod ?n)) = key"
    using first_stop [OF h(2) k(1), of "\<lambda>x. fst (lp_table t ! x) = key"] k(2) by blast
  have "remove_scan (lp_table t) (int ?n) key (int ?h) = Some (Inr (int ((?h + d) mod ?n)))"
    using d by (intro remove_scan_steps) (simp_all add: h)
  then have "lp_remove t key =
             Some (Inr (t\<lparr>lp_elements := lp_elements t - 1,
                          lp_table := (lp_table t)[(?h + d) mod ?n := (0, 0)]\<rparr>))"
    using n h by (simp add: lp_remove_def)
  then show ?thesis using d by (intro exI [of _ d]) (simp add: slot_at_def)
qed

lemma lp_remove_then_get:
  assumes "0 < lp_hash_groups t" "length (lp_table t) = nat (lp_hash_groups t)" "0 \<le> key"
    and "key \<in> fst ` set (lp_table t)"
  shows "\<exists>t'. lp_remove t key = Some (Inr t') \<and> lp_get t' key = Some (Inr (- 1))"
proof -
  let ?n = "length (lp_table t)"
  let ?h = "home ?n key"
  obtain d where d: "d < ?n" "fst (slot_at (lp_table t) key d) = key"
    "\<forall>d'<d. fst (slot_at (lp_table t) key d') \<noteq> key"
    "lp_remove t key = Some (Inr (t\<lparr>lp_elements := lp_elements t - 1,
                          lp_table := (lp_table t)[(?h + d) mod ?n := (0, 0)]\<rparr>))"
    using lp_remove_run [OF assms] by blast
  define t' where "t' = t\<lparr>lp_elements := lp_elements t - 1,
                          lp_table := (lp_table t)[(?h + d) mod ?n := (0, 0)]\<rparr>"
  have len: "length (lp_table t') = ?n" by (simp add: t'_def)
  have n: "0 < ?n" using assms by simp
  have h: "?h < ?n" using home_nonneg [OF assms(3) n] by simp
  have slot': "slot_at (lp_table t') key x =
     (if (?h + x) mod ?n = (?h + d) mod ?n then (0, 0) else slot_at (lp_table t) key x)" for x
    using n by (simp add: t'_def slot_at_def)
  obtain v e where ve: "e < ?n" "lp_get t' key = Some (Inr v)"
    "\<forall>d'<e. fst (slot_at (lp_table t') key d') \<noteq> 0 \<and> fst (slot_at (lp_table t') key d') \<noteq> key"
    "get_result (slot_at (lp_table t') key e) key (e + 1 = ?n) v"
    using lp_get_run [of t' key] assms len by (auto simp: t'_def)
  have "v = - 1"
  proof (rule ccontr)
    assume "v \<noteq> - 1"
    then have m: "fst (slot_at (lp_table t') key e) \<noteq> 0" "fst (slot_at (lp_table t') key e) = key"
      using ve(4) by (auto simp: get_result_def)
    then have ne: "(?h + e) mod ?n \<noteq> (?h + d) mod ?n" and old: "fst (slot_at (lp_table t) key e) = key"
      by (auto simp: slot' split: if_splits)
    have "\<not> e < d" using d(3) old by blast
    moreover have "e \<noteq> d" using ne by blast
    ultimately have "d < e" by simp
    then have "fst (slot_at (lp_table t') key d) \<noteq> 0" using ve(3) by blast
    then show False by (simp add: slot')
  qed
  then show ?thesis using d(4) ve(2) by (simp add: t'_def)
qed

section \<open>Chains of the chained table\<close>

lemma first_match_values:
  "first_match key chain = (case chain_values key chain of [] \<Rightarrow> - 1 | v # _ \<Rightarrow> v)"
  by (induction chain) (simp_all add: chain_values_def)

lemma erase_first_None: "erase_first key chain = None \<longleftrightarrow> chain_values key chain = []"
  by (induction chain) (simp_all add: chain_values_def)

lemma erase_first_Some:
  "erase_first key chain = Some chain' \<Longrightarrow>
     chain_values key chain' = tl (chain_values key chain) \<and> length chain = Suc (length chain')"
  by (induction chain arbitrary: chain') (auto simp: chain_values_def split: if_splits)

lemma erase_first_other:
  "erase_first key chain = Some chain' \<Longrightarrow> k \<noteq> key \<Longrightarrow> chain_values k chain' = chain_values k chain"
  by (induction chain arbitrary: chain') (auto simp: chain_values_def split: if_splits)

lemma sc_remove_then_get:
  assumes "0 < sc_hash_groups s" "length (sc_table s) = nat (sc_hash_groups s)" "0 \<le> key"
  shows "\<exists>s'. sc_remove s key = Inr s' \<and>
           sc_get s' key =
             Inr (case tl (chain_values key (sc_table s ! home (length (sc_table s)) key)) of
                    [] \<Rightarrow> - 1 | v # _ \<Rightarrow> v)"
proof -
  let ?n = "length (sc_table s)"
  let ?h = "home ?n key"
  have n: "0 < ?n" "sc_hash_groups s = int ?n" using assms by simp_all
  have h: "c_rem key (int ?n) = int ?h" "?h < ?n"
    using home_nonneg [OF assms(3) n(1)] by simp_all
  have rng: "in_range (sc_table s) (int ?h)" using h by (simp add: in_range_def)
  show ?thesis
  proof (cases "erase_first key (sc_table s ! ?h)")
    case None
    then have "chain_values key (sc_table s ! ?h) = []" by (simp add: erase_first_None)
    then show ?thesis
      using None n h rng by (simp add: sc_remove_def sc_get_def first_match_values)
  next
    case (Some chain')
    then have "chain_values key chain' = tl (chain_values key (sc_table s ! ?h))"
      by (simp add: erase_first_Some)
    then show ?thesis
      using Some n h rng by (simp add: sc_remove_def sc_get_def first_match_values in_range_def)
  qed
qed

section \<open>The stored entries under a slot update\<close>

lemma size_stored: "size (stored tbl) = length (filter (\<lambda>p. fst p \<noteq> 0) tbl)"
  by (simp add: stored_def del: mset_filter)

lemma occupied_stored: "occupied tbl = size (stored tbl)"
  by (simp add: occupied_def size_stored)

lemma stored_update:
  assumes "j < length tbl"
  shows "stored (tbl[j := p]) + stored [tbl ! j] = stored tbl + stored [p]"
proof -
  have "tbl = take j tbl @ tbl ! j # drop (Suc j) tbl"
    using assms by (rule id_take_nth_drop)
  then have "stored tbl = stored (take j tbl) + stored [tbl ! j] + stored (drop (Suc j) tbl)"
    unfolding stored_def by (metis (no_types, lifting) append_Cons append_Nil filter_append mset_append union_assoc)
  moreover have "stored (tbl[j := p]) = stored (take j tbl) + stored [p] + stored (drop (Suc j) tbl)"
    using assms by (simp add: upd_conv_take_nth_drop stored_def)
  ultimately show ?thesis by simp
qed

lemma stored_update_empty:
  assumes "j < length tbl" "fst (tbl ! j) = 0"
  shows "stored (tbl[j := p]) = (if fst p \<noteq> 0 then add_mset p (stored tbl) else stored tbl)"
  using stored_update [OF assms(1), of p] assms(2) by (simp add: stored_def)

lemma exists_empty:
  assumes "size (stored tbl) < length tbl"
  shows "\<exists>k<length tbl. fst (tbl ! k) = 0"
proof (rule ccontr)
  assume "\<not> (\<exists>k<length tbl. fst (tbl ! k) = 0)"
  then have "\<forall>p\<in>set tbl. fst p \<noteq> 0" by (metis in_set_conv_nth)
  then have "filter (\<lambda>p. fst p \<noteq> 0) tbl = tbl" by simp
  then show False using assms by (simp add: size_stored)
qed

lemma stored_iff: "p \<in># stored tbl \<longleftrightarrow> p \<in> set tbl \<and> fst p \<noteq> 0"
  by (simp add: stored_def)

section \<open>Placing an entry keeps the probe sequences\<close>

lemma probe_ok_place:
  assumes ok: "probe_ok tbl" and j: "j < length tbl"
    and old: "fst (tbl ! j) = 0 \<or> fst (tbl ! j) = k"
    and path: "k \<noteq> 0 \<Longrightarrow> \<exists>d<length tbl. (home (length tbl) k + d) mod length tbl = j \<and>
                 (\<forall>d'<d. fst (tbl ! ((home (length tbl) k + d') mod length tbl)) \<noteq> 0)"
  shows "probe_ok (tbl[j := (k, v)])"
proof -
  let ?n = "length tbl"
  let ?tbl' = "tbl[j := (k, v)]"
  have keep: "fst (?tbl' ! x) \<noteq> 0" if "x < ?n" "fst (tbl ! x) \<noteq> 0" for x
    using that old by (cases "x = j") auto
  have "\<exists>d<?n. (home ?n (fst (?tbl' ! i)) + d) mod ?n = i \<and>
           (\<forall>d'<d. fst (?tbl' ! ((home ?n (fst (?tbl' ! i)) + d') mod ?n)) \<noteq> 0)"
    if i: "i < ?n" and nz: "fst (?tbl' ! i) \<noteq> 0" for i
  proof -
    have n: "0 < ?n" using i by (cases tbl) simp_all
    have "\<exists>d<?n. (home ?n (fst (?tbl' ! i)) + d) mod ?n = i \<and>
           (\<forall>d'<d. fst (tbl ! ((home ?n (fst (?tbl' ! i)) + d') mod ?n)) \<noteq> 0)"
    proof (cases "i = j")
      case True
      then show ?thesis using path nz j by simp
    next
      case False
      then have "fst (?tbl' ! i) = fst (tbl ! i)" by simp
      then show ?thesis using ok i nz by (simp add: probe_ok_iff)
    qed
    then obtain d where d: "d < ?n" "(home ?n (fst (?tbl' ! i)) + d) mod ?n = i"
      "\<forall>d'<d. fst (tbl ! ((home ?n (fst (?tbl' ! i)) + d') mod ?n)) \<noteq> 0" by blast
    have "\<forall>d'<d. fst (?tbl' ! ((home ?n (fst (?tbl' ! i)) + d') mod ?n)) \<noteq> 0"
      using d(3) keep n by simp
    then show ?thesis using d(1,2) by blast
  qed
  then show ?thesis by (simp add: probe_ok_iff)
qed

section \<open>The rehash loop of resize\<close>

lemma rehash_run:
  assumes "length nt = n" "\<forall>p\<in>set ps. 0 \<le> fst p" "size (stored nt) + size (stored ps) < n"
  shows "\<exists>nt'. rehash ps (int n) nt = Some (Inr nt') \<and> length nt' = n \<and>
           stored nt' = stored nt + stored ps \<and> (probe_ok nt \<longrightarrow> probe_ok nt')"
  using assms
proof (induction ps arbitrary: nt)
  case Nil
  then show ?case by (simp add: stored_def)
next
  case (Cons p ps)
  have n: "0 < n" using Cons.prems(3) by simp
  have h: "c_rem (fst p) (int n) = int (home n (fst p))" "home n (fst p) < n"
    using home_nonneg [of "fst p" n] Cons.prems(2) n by simp_all
  have "size (stored nt) < length nt" using Cons.prems(1,3) by simp
  then obtain k where k: "k < n" "fst (nt ! k) = 0"
    using exists_empty Cons.prems(1) by blast
  obtain d where d: "d < n" "fst (nt ! ((home n (fst p) + d) mod n)) = 0"
    "\<forall>d'<d. \<not> fst (nt ! ((home n (fst p) + d') mod n)) = 0"
    using first_stop [OF h(2) k(1), of "\<lambda>x. fst (nt ! x) = 0"] k(2) by blast
  let ?j = "(home n (fst p) + d) mod n"
  have j: "?j < length nt" using n Cons.prems(1) by simp
  have scan: "resize_scan nt (int n) (int (home n (fst p))) = Some (Inr (int ?j))"
    using d Cons.prems(1) h(2) by (intro resize_scan_steps) simp_all
  have st: "stored (nt[?j := p]) + stored ps = stored nt + stored (p # ps)"
    using stored_update_empty [OF j d(2), of p] by (simp add: stored_def)
  have "size (stored (nt[?j := p]) + stored ps) = size (stored nt + stored (p # ps))"
    using st by simp
  moreover have "size (stored (p # ps)) \<le> Suc (size (stored ps))" by (simp add: size_stored)
  ultimately have sz: "size (stored (nt[?j := p])) + size (stored ps) < n"
    using Cons.prems(3) by simp
  obtain nt' where nt': "rehash ps (int n) (nt[?j := p]) = Some (Inr nt')" "length nt' = n"
    "stored nt' = stored (nt[?j := p]) + stored ps" "probe_ok (nt[?j := p]) \<longrightarrow> probe_ok nt'"
    using Cons.IH [of "nt[?j := p]"] Cons.prems(1,2) sz by auto
  have "probe_ok (nt[?j := p])" if "probe_ok nt"
  proof -
    have "probe_ok (nt[?j := (fst p, snd p)])"
      using that j d Cons.prems(1) by (intro probe_ok_place) auto
    then show ?thesis by simp
  qed
  moreover have "rehash (p # ps) (int n) nt = Some (Inr nt')"
    using n scan nt'(1) h(1) by simp
  ultimately show ?case using nt' st by auto
qed

section \<open>Distinct keys and the represented mapping\<close>

lemma distinct_filter_iff:
  "distinct (map f (filter P xs)) \<longleftrightarrow>
     (\<forall>i<length xs. \<forall>j<length xs. P (xs ! i) \<and> P (xs ! j) \<and> f (xs ! i) = f (xs ! j) \<longrightarrow> i = j)"
proof
  assume a: "distinct (map f (filter P xs))"
  show "\<forall>i<length xs. \<forall>j<length xs. P (xs ! i) \<and> P (xs ! j) \<and> f (xs ! i) = f (xs ! j) \<longrightarrow> i = j"
  proof (intro allI impI)
    fix i j assume "i < length xs" "j < length xs" "P (xs ! i) \<and> P (xs ! j) \<and> f (xs ! i) = f (xs ! j)"
    then show "i = j" using distinct_filter_nth [OF a, of i j] by simp
  qed
next
  assume "\<forall>i<length xs. \<forall>j<length xs. P (xs ! i) \<and> P (xs ! j) \<and> f (xs ! i) = f (xs ! j) \<longrightarrow> i = j"
  then show "distinct (map f (filter P xs))"
  proof (induction xs)
    case Nil
    then show ?case by simp
  next
    case (Cons x xs)
    have tail: "\<forall>i<length xs. \<forall>j<length xs. P (xs ! i) \<and> P (xs ! j) \<and> f (xs ! i) = f (xs ! j) \<longrightarrow> i = j"
    proof (intro allI impI)
      fix i j assume *: "i < length xs" "j < length xs" "P (xs ! i) \<and> P (xs ! j) \<and> f (xs ! i) = f (xs ! j)"
      have "Suc i < length (x # xs)" "Suc j < length (x # xs)" using * by simp_all
      moreover have "P ((x # xs) ! Suc i) \<and> P ((x # xs) ! Suc j) \<and> f ((x # xs) ! Suc i) = f ((x # xs) ! Suc j)"
        using * by simp
      ultimately have "Suc i = Suc j" using Cons.prems by blast
      then show "i = j" by simp
    qed
    have head: "f x \<notin> f ` set (filter P xs)" if "P x"
    proof
      assume "f x \<in> f ` set (filter P xs)"
      then obtain y where "y \<in> set xs" "P y" "f y = f x" by auto
      then obtain m where m: "m < length xs" "xs ! m = y" by (auto simp: in_set_conv_nth)
      have "0 < length (x # xs)" "Suc m < length (x # xs)" using m by simp_all
      moreover have "P ((x # xs) ! 0) \<and> P ((x # xs) ! Suc m) \<and> f ((x # xs) ! 0) = f ((x # xs) ! Suc m)"
        using m that \<open>P y\<close> \<open>f y = f x\<close> by simp
      ultimately have "0 = Suc m" using Cons.prems by blast
      then show False by simp
    qed
    have "distinct (map f (filter P xs))" using Cons.IH tail by blast
    then show ?case using head by simp
  qed
qed

lemma set_update_iff:
  assumes "j < length xs"
  shows "x \<in> set (xs[j := y]) \<longleftrightarrow> x = y \<or> (\<exists>i<length xs. i \<noteq> j \<and> xs ! i = x)"
proof
  assume "x \<in> set (xs[j := y])"
  then obtain i where "i < length xs" "xs[j := y] ! i = x" by (auto simp: in_set_conv_nth)
  then show "x = y \<or> (\<exists>i<length xs. i \<noteq> j \<and> xs ! i = x)" by (cases "i = j") auto
next
  assume "x = y \<or> (\<exists>i<length xs. i \<noteq> j \<and> xs ! i = x)"
  then show "x \<in> set (xs[j := y])"
  proof
    assume "x = y"
    then show ?thesis using assms by (simp add: set_update_memI)
  next
    assume "\<exists>i<length xs. i \<noteq> j \<and> xs ! i = x"
    then obtain i where "i < length xs" "i \<noteq> j" "xs ! i = x" by blast
    then have "xs[j := y] ! i = x" "i < length (xs[j := y])" by simp_all
    then show ?thesis by (metis nth_mem)
  qed
qed

lemma lp_map_iff:
  assumes "distinct (map fst (filter (\<lambda>p. fst p \<noteq> 0) tbl))"
  shows "lp_map tbl k = Some v \<longleftrightarrow> (k, v) \<in> set tbl \<and> k \<noteq> 0"
  using assms by (auto simp: lp_map_def)

lemma map_eq_iffI:
  assumes "\<And>k v. m1 k = Some v \<longleftrightarrow> m2 k = Some v"
  shows "m1 = m2"
proof
  fix k show "m1 k = m2 k"
  proof (cases "m1 k")
    case None
    show ?thesis
    proof (cases "m2 k")
      case None
      then show ?thesis using \<open>m1 k = None\<close> by simp
    next
      case (Some v)
      then have "m1 k = Some v" using assms by blast
      then show ?thesis using \<open>m1 k = None\<close> by simp
    qed
  next
    case (Some v)
    then have "m2 k = Some v" using assms by blast
    then show ?thesis using Some by simp
  qed
qed

lemma keys_stored: "mset (map fst (filter (\<lambda>p. fst p \<noteq> 0) tbl)) = image_mset fst (stored tbl)"
  by (simp add: stored_def del: mset_filter)

lemma key_absent_if_empty_found:
  assumes ok: "probe_ok tbl" and d: "d < length tbl"
    and empty: "fst (tbl ! ((home (length tbl) key + d) mod length tbl)) = 0"
    and path: "\<forall>d'<d. fst (tbl ! ((home (length tbl) key + d') mod length tbl)) \<noteq> 0 \<and>
                       fst (tbl ! ((home (length tbl) key + d') mod length tbl)) \<noteq> key"
    and key: "key \<noteq> 0"
  shows "\<forall>i<length tbl. fst (tbl ! i) \<noteq> key"
proof (intro allI impI notI)
  fix i assume i: "i < length tbl" "fst (tbl ! i) = key"
  let ?n = "length tbl"
  obtain di where di: "di < ?n" "(home ?n key + di) mod ?n = i"
    "\<forall>d'<di. fst (tbl ! ((home ?n key + d') mod ?n)) \<noteq> 0"
    using ok i key by (auto simp: probe_ok_iff)
  consider "di < d" | "di = d" | "d < di" by linarith
  then show False
  proof cases
    case 1
    then show False using path di(2) i(2) by auto
  next
    case 2
    then show False using empty di(2) i(2) key by auto
  next
    case 3
    then show False using di(3) empty by auto
  qed
qed

section \<open>resize on the probing table\<close>

lemma stored_le_length: "size (stored tbl) \<le> length tbl"
  by (simp add: size_stored)

lemma lp_resize_run:
  assumes "0 < lp_hash_groups t" "length (lp_table t) = nat (lp_hash_groups t)"
    and "\<forall>p\<in>set (lp_table t). 0 \<le> fst p"
  shows "\<exists>nt. lp_resize t = Some (Inr (t\<lparr>lp_hash_groups := lp_hash_groups t * 2, lp_table := nt\<rparr>)) \<and>
           length nt = nat (lp_hash_groups t * 2) \<and> stored nt = stored (lp_table t) \<and> probe_ok nt"
proof -
  define n where "n = length (lp_table t)"
  define new where "new = replicate (2 * n) (0::int, 0::int)"
  have n: "0 < n" using assms(1,2) by (simp add: n_def)
  have hg: "lp_hash_groups t * 2 = int (2 * n)" "nat (lp_hash_groups t * 2) = 2 * n"
    using assms(1,2) by (simp_all add: n_def)
  have new: "stored new = {#}" "probe_ok new" "length new = 2 * n"
    by (simp_all add: new_def stored_def probe_ok_iff)
  have "size (stored (lp_table t)) \<le> n"
    using stored_le_length [of "lp_table t"] by (simp add: n_def)
  then have "size (stored new) + size (stored (lp_table t)) < 2 * n"
    using n by (simp add: new(1))
  then obtain nt where nt: "rehash (lp_table t) (int (2 * n)) new = Some (Inr nt)"
    "length nt = 2 * n" "stored nt = stored new + stored (lp_table t)" "probe_ok new \<longrightarrow> probe_ok nt"
    using rehash_run [of new "2 * n" "lp_table t"] assms(3) new(3) by blast
  have "rehash (lp_table t) (lp_hash_groups t * 2) (replicate (nat (lp_hash_groups t * 2)) (0, 0))
          = Some (Inr nt)"
    using nt(1) by (simp only: hg(1) new_def nat_int)
  then have "lp_resize t = Some (Inr (t\<lparr>lp_hash_groups := lp_hash_groups t * 2, lp_table := nt\<rparr>))"
    using assms(1) by (simp add: lp_resize_def Let_def)
  moreover have "length nt = nat (lp_hash_groups t * 2)" using nt(2) hg(2) by simp
  moreover have "stored nt = stored (lp_table t)" using nt(3) new(1) by simp
  moreover have "probe_ok nt" using nt(4) new(2) by simp
  ultimately show ?thesis by blast
qed

lemma lp_resize_inv:
  assumes "lp_inv t"
  shows "\<exists>t'. lp_resize t = Some (Inr t') \<and> lp_inv t' \<and>
           lp_hash_groups t' = lp_hash_groups t * 2 \<and> lp_elements t' = lp_elements t \<and>
           lp_map (lp_table t') = lp_map (lp_table t)"
proof -
  have wf: "0 < lp_hash_groups t" "length (lp_table t) = nat (lp_hash_groups t)"
    "\<forall>p\<in>set (lp_table t). 0 \<le> fst p" "lp_elements t = int (occupied (lp_table t))"
    "distinct (map fst (filter (\<lambda>p. fst p \<noteq> 0) (lp_table t)))"
    using assms by (simp_all add: lp_inv_def)
  obtain nt where nt: "lp_resize t = Some (Inr (t\<lparr>lp_hash_groups := lp_hash_groups t * 2, lp_table := nt\<rparr>))"
    "length nt = nat (lp_hash_groups t * 2)" "stored nt = stored (lp_table t)" "probe_ok nt"
    using lp_resize_run [OF wf(1,2,3)] by blast
  have mem: "p \<in> set nt \<and> fst p \<noteq> 0 \<longleftrightarrow> p \<in> set (lp_table t) \<and> fst p \<noteq> 0" for p
    using nt(3) stored_iff by metis
  have nonneg: "\<forall>p\<in>set nt. 0 \<le> fst p"
  proof
    fix p assume "p \<in> set nt"
    then show "0 \<le> fst p" using mem [of p] wf(3) by (cases "fst p = 0") auto
  qed
  have "mset (map fst (filter (\<lambda>p. fst p \<noteq> 0) nt)) = mset (map fst (filter (\<lambda>p. fst p \<noteq> 0) (lp_table t)))"
    by (simp only: keys_stored nt(3))
  then have dk: "distinct (map fst (filter (\<lambda>p. fst p \<noteq> 0) nt))"
    using wf(5) mset_eq_imp_distinct_iff by blast
  have "lp_map nt = lp_map (lp_table t)"
  proof (rule map_eq_iffI)
    fix k v show "lp_map nt k = Some v \<longleftrightarrow> lp_map (lp_table t) k = Some v"
      using mem [of "(k, v)"] by (simp add: lp_map_iff [OF dk] lp_map_iff [OF wf(5)])
  qed
  moreover have "occupied nt = occupied (lp_table t)" by (simp add: occupied_stored nt(3))
  ultimately show ?thesis
    using nt wf nonneg dk by (simp add: lp_inv_def)
qed

section \<open>Placing a pair: the body of insert\<close>

lemma lp_place_run:
  assumes "0 < lp_hash_groups t" "length (lp_table t) = nat (lp_hash_groups t)" "0 \<le> key"
    and "\<exists>k<length (lp_table t). fst (lp_table t ! k) = 0 \<or> fst (lp_table t ! k) = key"
  shows "\<exists>d<length (lp_table t).
           (fst (slot_at (lp_table t) key d) = 0 \<or> fst (slot_at (lp_table t) key d) = key) \<and>
           (\<forall>d'<d. fst (slot_at (lp_table t) key d') \<noteq> 0 \<and> fst (slot_at (lp_table t) key d') \<noteq> key) \<and>
           lp_place t key v =
             Some (Inr (t\<lparr>lp_elements :=
                            (if fst (slot_at (lp_table t) key d) \<noteq> key then lp_elements t + 1
                             else lp_elements t),
                          lp_table := (lp_table t)
                            [(home (length (lp_table t)) key + d) mod length (lp_table t) := (key, v)]\<rparr>))"
proof -
  define n where "n = length (lp_table t)"
  define h where "h = home n key"
  have n: "0 < n" "lp_hash_groups t = int n" using assms(1,2) by (simp_all add: n_def)
  have h: "c_rem key (int n) = int h" "h < n"
    using home_nonneg [OF assms(3) n(1)] by (simp_all add: h_def)
  obtain k where k: "k < n" "fst (lp_table t ! k) = 0 \<or> fst (lp_table t ! k) = key"
    using assms(4) n_def by blast
  obtain d where d: "d < n"
    "fst (lp_table t ! ((h + d) mod n)) = 0 \<or> fst (lp_table t ! ((h + d) mod n)) = key"
    "\<forall>d'<d. \<not> (fst (lp_table t ! ((h + d') mod n)) = 0 \<or> fst (lp_table t ! ((h + d') mod n)) = key)"
    using first_stop [OF h(2) k(1), of "\<lambda>x. fst (lp_table t ! x) = 0 \<or> fst (lp_table t ! x) = key"] k(2)
    by blast
  have "insert_scan (lp_table t) (int n) key (int h) = Some (Inr (int ((h + d) mod n)))"
    using d h(2) by (intro insert_scan_steps) (simp_all add: n_def)
  then have "lp_place t key v =
             Some (Inr (t\<lparr>lp_elements :=
                            (if fst (lp_table t ! ((h + d) mod n)) \<noteq> key then lp_elements t + 1
                             else lp_elements t),
                          lp_table := (lp_table t)[(h + d) mod n := (key, v)]\<rparr>))"
    using n h by (simp add: lp_place_def)
  then show ?thesis
    using d unfolding slot_at_def n_def [symmetric] h_def [symmetric] by blast
qed

lemma stored_eq_transfer:
  assumes eq: "stored a = stored b"
    and dk: "distinct (map fst (filter (\<lambda>p. fst p \<noteq> 0) b))"
  shows "distinct (map fst (filter (\<lambda>p. fst p \<noteq> 0) a))" "lp_map a = lp_map b"
    "occupied a = occupied b" "(\<forall>p\<in>set b. 0 \<le> fst p) \<Longrightarrow> (\<forall>p\<in>set a. 0 \<le> fst p)"
proof -
  have mem: "p \<in> set a \<and> fst p \<noteq> 0 \<longleftrightarrow> p \<in> set b \<and> fst p \<noteq> 0" for p
    using eq stored_iff by metis
  have "mset (map fst (filter (\<lambda>p. fst p \<noteq> 0) a)) = mset (map fst (filter (\<lambda>p. fst p \<noteq> 0) b))"
    by (simp only: keys_stored eq)
  then show dka: "distinct (map fst (filter (\<lambda>p. fst p \<noteq> 0) a))"
    using dk mset_eq_imp_distinct_iff by blast
  show "lp_map a = lp_map b"
  proof (rule map_eq_iffI)
    fix k v show "lp_map a k = Some v \<longleftrightarrow> lp_map b k = Some v"
      using mem [of "(k, v)"] by (simp add: lp_map_iff [OF dka] lp_map_iff [OF dk])
  qed
  show "occupied a = occupied b" by (simp add: occupied_stored eq)
  show "\<forall>p\<in>set a. 0 \<le> fst p" if "\<forall>p\<in>set b. 0 \<le> fst p"
  proof
    fix p assume "p \<in> set a"
    then show "0 \<le> fst p" using mem [of p] that by (cases "fst p = 0") auto
  qed
qed

lemma lp_place_inv:
  assumes inv: "lp_inv t" and key: "0 \<le> key" and room: "lp_elements t < lp_hash_groups t"
  shows "\<exists>t'. lp_place t key v = Some (Inr t') \<and> lp_inv t' \<and>
           lp_hash_groups t' = lp_hash_groups t \<and>
           lp_map (lp_table t') = (if key = 0 then lp_map (lp_table t) else (lp_map (lp_table t))(key \<mapsto> v)) \<and>
           lp_elements t' = (if key = 0 \<or> lp_map (lp_table t) key \<noteq> None then lp_elements t
                             else lp_elements t + 1)"
proof -
  define tbl where "tbl = lp_table t"
  define n where "n = length tbl"
  have wf: "0 < lp_hash_groups t" "length tbl = nat (lp_hash_groups t)"
    "\<forall>p\<in>set tbl. 0 \<le> fst p" "lp_elements t = int (occupied tbl)"
    "distinct (map fst (filter (\<lambda>p. fst p \<noteq> 0) tbl))" "probe_ok tbl"
    using inv by (simp_all add: lp_inv_def tbl_def)
  have "size (stored tbl) < length tbl" using room wf(1,2,4) by (simp add: occupied_stored)
  then have "\<exists>k<length tbl. fst (tbl ! k) = 0 \<or> fst (tbl ! k) = key"
    using exists_empty by blast
  then obtain d where d: "d < n"
    "fst (slot_at tbl key d) = 0 \<or> fst (slot_at tbl key d) = key"
    "\<forall>d'<d. fst (slot_at tbl key d') \<noteq> 0 \<and> fst (slot_at tbl key d') \<noteq> key"
    "lp_place t key v =
       Some (Inr (t\<lparr>lp_elements := (if fst (slot_at tbl key d) \<noteq> key then lp_elements t + 1
                                      else lp_elements t),
                    lp_table := tbl[(home n key + d) mod n := (key, v)]\<rparr>))"
    using lp_place_run [of t key v] wf(1,2) key unfolding tbl_def [symmetric] n_def [symmetric] by blast
  define j where "j = (home n key + d) mod n"
  define tbl' where "tbl' = tbl[j := (key, v)]"
  define t' where "t' = t\<lparr>lp_elements := (if fst (tbl ! j) \<noteq> key then lp_elements t + 1 else lp_elements t),
                          lp_table := tbl'\<rparr>"
  have n: "0 < n" using d(1) by simp
  have j: "j < length tbl" using n by (simp add: j_def n_def)
  have slot: "slot_at tbl key x = tbl ! ((home n key + x) mod n)" for x
    by (simp add: slot_at_def n_def)
  have old: "fst (tbl ! j) = 0 \<or> fst (tbl ! j) = key" using d(2) by (simp add: slot j_def)
  have place: "lp_place t key v = Some (Inr t')"
    using d(4) by (simp add: t'_def tbl'_def j_def slot)
  have len': "length tbl' = length tbl" by (simp add: tbl'_def)
  have nonneg': "\<forall>p\<in>set tbl'. 0 \<le> fst p"
  proof
    fix p assume "p \<in> set tbl'"
    then have "p = (key, v) \<or> p \<in> set tbl"
      unfolding tbl'_def using set_update_subset_insert [of tbl j "(key, v)"] by auto
    then show "0 \<le> fst p" using key wf(3) by auto
  qed
  have ok': "probe_ok tbl'"
    unfolding tbl'_def
  proof (rule probe_ok_place [OF wf(6) j old])
    assume "key \<noteq> 0"
    have "(home (length tbl) key + d) mod length tbl = j"
      "\<forall>d'<d. fst (tbl ! ((home (length tbl) key + d') mod length tbl)) \<noteq> 0"
      using d(3) by (simp_all add: j_def n_def slot_at_def)
    then show "\<exists>d<length tbl. (home (length tbl) key + d) mod length tbl = j \<and>
                 (\<forall>d'<d. fst (tbl ! ((home (length tbl) key + d') mod length tbl)) \<noteq> 0)"
      using d(1) n_def by blast
  qed
  show ?thesis
  proof (cases "key = 0")
    case True
    then have e: "fst (tbl ! j) = 0" using old by simp
    have st: "stored tbl' = stored tbl"
      using stored_update_empty [OF j e, of "(key, v)"] True by (simp add: tbl'_def)
    have "lp_inv t'"
      using stored_eq_transfer [OF st wf(5)] wf nonneg' ok' len' e True
      by (simp add: lp_inv_def t'_def)
    moreover have "lp_map tbl' = lp_map tbl" using stored_eq_transfer(2) [OF st wf(5)] .
    moreover have "lp_elements t' = lp_elements t" using e True by (simp add: t'_def)
    ultimately show ?thesis
      using place True by (intro exI [of _ t']) (simp add: t'_def tbl_def)
  next
    case False
    have others: "\<forall>i<length tbl. i \<noteq> j \<longrightarrow> fst (tbl ! i) \<noteq> key"
    proof (cases "fst (tbl ! j) = key")
      case True
      show ?thesis
      proof (intro allI impI notI)
        fix i assume "i < length tbl" "i \<noteq> j" "fst (tbl ! i) = key"
        then have "i = j"
          using distinct_filter_nth [OF wf(5), of i j] j True False by simp
        then show False using \<open>i \<noteq> j\<close> by simp
      qed
    next
      case no: False
      then have e: "fst (tbl ! j) = 0" using old by simp
      have "\<forall>i<length tbl. fst (tbl ! i) \<noteq> key"
      proof (rule key_absent_if_empty_found [OF wf(6) _ _ _ False])
        show "d < length tbl" using d(1) by (simp add: n_def)
        show "fst (tbl ! ((home (length tbl) key + d) mod length tbl)) = 0"
          using e by (simp add: j_def n_def)
        show "\<forall>d'<d. fst (tbl ! ((home (length tbl) key + d') mod length tbl)) \<noteq> 0 \<and>
                      fst (tbl ! ((home (length tbl) key + d') mod length tbl)) \<noteq> key"
          using d(3) by (simp add: slot_at_def)
      qed
      then show ?thesis by blast
    qed
    have nth': "tbl' ! i = (if i = j then (key, v) else tbl ! i)" if "i < length tbl" for i
      using that by (simp add: tbl'_def)
    have dk': "distinct (map fst (filter (\<lambda>p. fst p \<noteq> 0) tbl'))"
    proof (subst distinct_filter_iff, intro allI impI)
      fix i i' assume i: "i < length tbl'" "i' < length tbl'"
        and same: "fst (tbl' ! i) \<noteq> 0 \<and> fst (tbl' ! i') \<noteq> 0 \<and> fst (tbl' ! i) = fst (tbl' ! i')"
      show "i = i'"
      proof (cases "i = j \<or> i' = j")
        case True
        then show ?thesis using same others i len' by (auto simp: nth' split: if_splits)
      next
        case False
        then have "fst (tbl ! i) \<noteq> 0 \<and> fst (tbl ! i') \<noteq> 0 \<and> fst (tbl ! i) = fst (tbl ! i')"
          using same i len' by (simp add: nth')
        then show ?thesis using distinct_filter_nth [OF wf(5), of i i'] i len' by simp
      qed
    qed
    have "stored tbl' + stored [tbl ! j] = stored tbl + stored [(key, v)]"
      unfolding tbl'_def using j by (rule stored_update)
    then have "size (stored tbl') + size (stored [tbl ! j]) = size (stored tbl) + size (stored [(key, v)])"
      by (metis size_union)
    then have occ': "int (occupied tbl') = (if fst (tbl ! j) \<noteq> key then lp_elements t + 1 else lp_elements t)"
      using old False wf(4) by (auto simp: occupied_stored size_stored)
    have inv': "lp_inv t'"
      using wf(1,2) len' occ' nonneg' dk' ok' by (simp add: lp_inv_def t'_def)
    have present: "lp_map tbl key \<noteq> None \<longleftrightarrow> fst (tbl ! j) = key"
    proof
      assume "lp_map tbl key \<noteq> None"
      then obtain x where "(key, x) \<in> set tbl" using lp_map_iff [OF wf(5)] by auto
      then obtain i where "i < length tbl" "tbl ! i = (key, x)" by (auto simp: in_set_conv_nth)
      then show "fst (tbl ! j) = key" using others by (cases "i = j") auto
    next
      assume "fst (tbl ! j) = key"
      then have "(key, snd (tbl ! j)) \<in> set tbl" using j by (metis nth_mem prod.collapse)
      then show "lp_map tbl key \<noteq> None" using lp_map_iff [OF wf(5)] False by auto
    qed
    have map': "lp_map tbl' = (lp_map tbl)(key \<mapsto> v)"
    proof (rule map_eq_iffI)
      fix k x
      have "(k, x) \<in> set tbl' \<and> k \<noteq> 0 \<longleftrightarrow> (if k = key then x = v else (k, x) \<in> set tbl \<and> k \<noteq> 0)"
      proof (cases "k = key")
        case True
        have "\<not> (\<exists>i<length tbl. i \<noteq> j \<and> tbl ! i = (key, x))" using others by auto
        then have "(key, x) \<in> set tbl' \<longleftrightarrow> x = v"
          using j by (auto simp: tbl'_def set_update_iff)
        then show ?thesis using True False by simp
      next
        case ne: False
        have "(\<exists>i<length tbl. i \<noteq> j \<and> tbl ! i = (k, x)) \<longleftrightarrow> (k, x) \<in> set tbl" if "k \<noteq> 0"
        proof
          assume "\<exists>i<length tbl. i \<noteq> j \<and> tbl ! i = (k, x)"
          then show "(k, x) \<in> set tbl" by (metis nth_mem)
        next
          assume "(k, x) \<in> set tbl"
          then obtain i where i: "i < length tbl" "tbl ! i = (k, x)" by (auto simp: in_set_conv_nth)
          then have "i \<noteq> j" using old ne that by auto
          then show "\<exists>i<length tbl. i \<noteq> j \<and> tbl ! i = (k, x)" using i by blast
        qed
        then show ?thesis using ne j by (auto simp: tbl'_def set_update_iff)
      qed
      then show "lp_map tbl' k = Some x \<longleftrightarrow> ((lp_map tbl)(key \<mapsto> v)) k = Some x"
        by (auto simp: lp_map_iff [OF dk'] lp_map_iff [OF wf(5)])
    qed
    have "lp_elements t' = (if lp_map tbl key \<noteq> None then lp_elements t else lp_elements t + 1)"
      using present by (simp add: t'_def)
    then show ?thesis
      using place inv' map' False by (intro exI [of _ t']) (simp add: t'_def tbl_def)
  qed
qed

section \<open>insert and get on tables built by insert alone\<close>

lemma lp_inv_room:
  assumes "lp_inv t"
  shows "lp_elements t \<le> lp_hash_groups t"
proof -
  have a: "size (stored (lp_table t)) \<le> length (lp_table t)"
    by (rule stored_le_length)
  have b: "0 < lp_hash_groups t" "length (lp_table t) = nat (lp_hash_groups t)"
    "lp_elements t = int (size (stored (lp_table t)))"
    using assms by (simp_all add: lp_inv_def occupied_stored)
  show ?thesis using a b by linarith
qed

lemma lp_insert_inv:
  assumes inv: "lp_inv t" and key: "0 \<le> key"
  shows "\<exists>t'. lp_insert t key v = Some (Inr t') \<and> lp_inv t' \<and>
           lp_hash_groups t' = (if load_reached (lp_elements t) (lp_hash_groups t)
                                then lp_hash_groups t * 2 else lp_hash_groups t) \<and>
           lp_map (lp_table t') = (if key = 0 then lp_map (lp_table t) else (lp_map (lp_table t))(key \<mapsto> v)) \<and>
           lp_elements t' = (if key = 0 \<or> lp_map (lp_table t) key \<noteq> None then lp_elements t
                             else lp_elements t + 1)"
proof (cases "load_reached (lp_elements t) (lp_hash_groups t)")
  case True
  obtain t1 where t1: "lp_resize t = Some (Inr t1)" "lp_inv t1"
    "lp_hash_groups t1 = lp_hash_groups t * 2" "lp_elements t1 = lp_elements t"
    "lp_map (lp_table t1) = lp_map (lp_table t)"
    using lp_resize_inv [OF inv] by blast
  have "0 < lp_hash_groups t" using inv by (simp add: lp_inv_def)
  then have "lp_elements t1 < lp_hash_groups t1" using lp_inv_room [OF inv] t1(3,4) by simp
  then obtain t' where t': "lp_place t1 key v = Some (Inr t')" "lp_inv t'"
    "lp_hash_groups t' = lp_hash_groups t1"
    "lp_map (lp_table t') = (if key = 0 then lp_map (lp_table t1) else (lp_map (lp_table t1))(key \<mapsto> v))"
    "lp_elements t' = (if key = 0 \<or> lp_map (lp_table t1) key \<noteq> None then lp_elements t1
                       else lp_elements t1 + 1)"
    using lp_place_inv [OF t1(2) key, of v] by blast
  have "lp_insert t key v = Some (Inr t')" using True t1(1) t'(1) by (simp add: lp_insert_def)
  then show ?thesis using True t' t1 by (intro exI [of _ t']) simp
next
  case False
  have "0 < lp_hash_groups t" using inv by (simp add: lp_inv_def)
  then have "lp_elements t < lp_hash_groups t" using False by (simp add: load_reached_int)
  then obtain t' where t': "lp_place t key v = Some (Inr t')" "lp_inv t'"
    "lp_hash_groups t' = lp_hash_groups t"
    "lp_map (lp_table t') = (if key = 0 then lp_map (lp_table t) else (lp_map (lp_table t))(key \<mapsto> v))"
    "lp_elements t' = (if key = 0 \<or> lp_map (lp_table t) key \<noteq> None then lp_elements t
                       else lp_elements t + 1)"
    using lp_place_inv [OF inv key, of v] by blast
  have "lp_insert t key v = Some (Inr t')" using False t'(1) by (simp add: lp_insert_def)
  then show ?thesis using False t' by (intro exI [of _ t']) simp
qed

lemma lp_get_inv:
  assumes inv: "lp_inv t" and m: "lp_map (lp_table t) key = Some v"
  shows "lp_get t key = Some (Inr v)"
proof -
  define tbl where "tbl = lp_table t"
  define n where "n = length tbl"
  define h where "h = home n key"
  have wf: "0 < lp_hash_groups t" "length tbl = nat (lp_hash_groups t)"
    "\<forall>p\<in>set tbl. 0 \<le> fst p"
    "distinct (map fst (filter (\<lambda>p. fst p \<noteq> 0) tbl))" "probe_ok tbl"
    using inv by (simp_all add: lp_inv_def tbl_def)
  have kv: "(key, v) \<in> set tbl" "key \<noteq> 0" using m lp_map_iff [OF wf(4)] by (simp_all add: tbl_def)
  then obtain i where i: "i < n" "tbl ! i = (key, v)" by (auto simp: in_set_conv_nth n_def)
  have key: "0 \<le> key" using kv(1) wf(3) by auto
  obtain di where di: "di < n" "(h + di) mod n = i" "\<forall>d'<di. fst (tbl ! ((h + d') mod n)) \<noteq> 0"
    using wf(5) i kv(2) unfolding probe_ok_iff n_def [symmetric] h_def by fastforce
  obtain x d where d: "d < n" "lp_get t key = Some (Inr x)"
    "\<forall>d'<d. fst (tbl ! ((h + d') mod n)) \<noteq> 0 \<and> fst (tbl ! ((h + d') mod n)) \<noteq> key"
    "get_result (tbl ! ((h + d) mod n)) key (d + 1 = n) x"
    using lp_get_run [of t key] wf(1,2) key
    unfolding tbl_def [symmetric] slot_at_def n_def [symmetric] h_def [symmetric] by blast
  have "\<not> di < d" using d(3) di(2) i(2) by auto
  moreover have "\<not> d < di"
  proof
    assume less: "d < di"
    then have nz: "fst (tbl ! ((h + d) mod n)) \<noteq> 0" using di(3) by blast
    have "fst (tbl ! ((h + d) mod n)) \<noteq> key"
    proof
      assume "fst (tbl ! ((h + d) mod n)) = key"
      moreover have "(h + d) mod n < n" using d(1) by (intro mod_less_divisor) simp
      then have "(h + d) mod n < length tbl" by (simp only: n_def)
      ultimately have "(h + d) mod n = i"
        using distinct_filter_nth [OF wf(4), of "(h + d) mod n" i] i kv(2) unfolding n_def by simp
      then have "d = di" using mod_add_inj [of d n di h] d(1) di(1,2) by simp
      then show False using less by simp
    qed
    then have "d + 1 = n" using d(4) nz by (simp add: get_result_def)
    then show False using less di(1) by simp
  qed
  ultimately have "d = di" by simp
  then have "x = v" using d(4) di(2) i(2) kv(2) by (simp add: get_result_def)
  then show ?thesis using d(2) by simp
qed

lemma lp_run_inserts:
  assumes "lp_inv t" "\<forall>p\<in>set kvs. 0 < fst p"
  shows "\<exists>t'. lp_run t (map (\<lambda>p. Insert (fst p) (snd p)) kvs) = Some (Inr t') \<and> lp_inv t' \<and>
           lp_map (lp_table t') = lp_map (lp_table t) ++ map_of (rev kvs)"
  using assms
proof (induction kvs arbitrary: t)
  case Nil
  then show ?case by simp
next
  case (Cons p kvs)
  obtain t1 where t1: "lp_insert t (fst p) (snd p) = Some (Inr t1)" "lp_inv t1"
    "lp_map (lp_table t1) = (lp_map (lp_table t))(fst p \<mapsto> snd p)"
    using lp_insert_inv [OF Cons.prems(1), of "fst p" "snd p"] Cons.prems(2) by fastforce
  obtain t' where t': "lp_run t1 (map (\<lambda>p. Insert (fst p) (snd p)) kvs) = Some (Inr t')" "lp_inv t'"
    "lp_map (lp_table t') = lp_map (lp_table t1) ++ map_of (rev kvs)"
    using Cons.IH [OF t1(2)] Cons.prems(2) by auto
  have "lp_map (lp_table t') = lp_map (lp_table t) ++ map_of (rev (p # kvs))"
    using t'(3) t1(3) by (cases p) (simp add: map_add_assoc [symmetric])
  then show ?case using t1(1) t'(1,2) by simp
qed

lemma lp_construct_inv: "0 < n \<Longrightarrow> \<exists>t. lp_construct n = Inr t \<and> lp_inv t \<and> lp_map (lp_table t) = Map.empty
   \<and> lp_hash_groups t = n \<and> lp_elements t = 0"
  by (simp add: lp_construct_def lp_inv_def occupied_def probe_ok_iff lp_map_def)

section \<open>The chained table\<close>

lemma sc_inv_iff:
  "sc_inv s \<longleftrightarrow>
     0 < sc_hash_groups s \<and> length (sc_table s) = nat (sc_hash_groups s) \<and>
     (\<forall>g<length (sc_table s). \<forall>p\<in>set (sc_table s ! g).
        0 \<le> fst p \<and> home (length (sc_table s)) (fst p) = g)"
  by (simp add: sc_inv_def Ball_def)

lemma chain_values_append:
  "chain_values k (xs @ ys) = chain_values k xs @ chain_values k ys"
  by (simp add: chain_values_def)

lemma rehash_group_run:
  assumes "length nt = n" "0 < n" "\<forall>p\<in>set ps. 0 \<le> fst p"
  shows "\<exists>nt'. rehash_group ps (int n) nt = Inr nt' \<and> length nt' = n \<and>
           (\<forall>g<n. nt' ! g = nt ! g @ filter (\<lambda>p. home n (fst p) = g) ps)"
  using assms
proof (induction ps arbitrary: nt)
  case Nil
  then show ?case by simp
next
  case (Cons p ps)
  define g0 where "g0 = home n (fst p)"
  have h: "c_rem (fst p) (int n) = int g0" "g0 < n"
    using home_nonneg [of "fst p" n] Cons.prems(2,3) by (simp_all add: g0_def)
  define nt1 where "nt1 = nt[g0 := nt ! g0 @ [(fst p, snd p)]]"
  obtain nt' where nt': "rehash_group ps (int n) nt1 = Inr nt'" "length nt' = n"
    "\<forall>g<n. nt' ! g = nt1 ! g @ filter (\<lambda>p. home n (fst p) = g) ps"
    using Cons.IH [of nt1] Cons.prems by (auto simp: nt1_def)
  have "rehash_group (p # ps) (int n) nt = Inr nt'"
    using nt'(1) h Cons.prems(1,2) by (simp add: in_range_def nt1_def)
  moreover have "\<forall>g<n. nt' ! g = nt ! g @ filter (\<lambda>p. home n (fst p) = g) (p # ps)"
  proof (intro allI impI)
    fix g assume g: "g < n"
    have "nt1 ! g = (if g = g0 then nt ! g @ [p] else nt ! g)"
      using g Cons.prems(1) by (simp add: nt1_def)
    then show "nt' ! g = nt ! g @ filter (\<lambda>p. home n (fst p) = g) (p # ps)"
      using nt'(3) g by (auto simp: g0_def)
  qed
  ultimately show ?case using nt'(2) by blast
qed

lemma rehash_groups_concat:
  "rehash_groups gs hg2 nt = rehash_group (concat gs) hg2 nt"
proof (induction gs arbitrary: nt)
  case Nil
  then show ?case by simp
next
  case (Cons g gs)
  have app: "rehash_group (xs @ ys) hg2 nt0 =
     (case rehash_group xs hg2 nt0 of Inl e \<Rightarrow> Inl e | Inr nt1 \<Rightarrow> rehash_group ys hg2 nt1)"
    for xs ys nt0
    by (induction xs arbitrary: nt0) (simp_all add: Let_def)
  show ?case by (simp add: app Cons.IH cong: sum.case_cong)
qed

lemma concat_single:
  assumes "h < length xss" "\<forall>g<length xss. g \<noteq> h \<longrightarrow> xss ! g = []"
  shows "concat xss = xss ! h"
proof -
  have split: "xss = take h xss @ xss ! h # drop (Suc h) xss"
    using assms(1) by (rule id_take_nth_drop)
  have "\<forall>xs\<in>set (take h xss). xs = []"
    using assms by (auto simp: in_set_conv_nth)
  moreover have "\<forall>xs\<in>set (drop (Suc h) xss). xs = []"
    using assms by (auto simp: in_set_conv_nth)
  ultimately have c: "concat (take h xss) = []" "concat (drop (Suc h) xss) = []"
    by simp_all
  show ?thesis
    by (subst split) (simp only: concat_append concat.simps c append_Nil append_Nil2)
qed

lemma sc_inv_all_values:
  assumes "sc_inv s" "0 \<le> k"
  shows "chain_values k (concat (sc_table s)) = sc_values s k"
proof -
  define tbl where "tbl = sc_table s"
  define n where "n = length tbl"
  have a: "0 < sc_hash_groups s" "length (sc_table s) = nat (sc_hash_groups s)"
    and c: "\<forall>g<length (sc_table s). \<forall>p\<in>set (sc_table s ! g).
              0 \<le> fst p \<and> home (length (sc_table s)) (fst p) = g"
    using assms(1) unfolding sc_inv_iff by blast+
  have wf: "0 < n" "sc_hash_groups s = int n"
    using a by (simp_all add: tbl_def n_def)
  have wf3: "\<forall>g<n. \<forall>p\<in>set (tbl ! g). home n (fst p) = g"
    using c unfolding tbl_def n_def by blast
  have h: "c_rem k (int n) = int (home n k)" "home n k < n"
    using home_nonneg [OF assms(2) wf(1)] by simp_all
  let ?fs = "map (filter (\<lambda>p. fst p = k)) tbl"
  have "\<forall>g<length ?fs. g \<noteq> home n k \<longrightarrow> ?fs ! g = []"
  proof (intro allI impI)
    fix g assume g: "g < length ?fs" "g \<noteq> home n k"
    then have "\<forall>p\<in>set (tbl ! g). fst p \<noteq> k" using wf3 by (auto simp: n_def)
    then show "?fs ! g = []" using g(1) by (simp add: filter_empty_conv)
  qed
  then have "concat ?fs = ?fs ! home n k"
    using h(2) by (intro concat_single) (simp_all add: n_def)
  then have "filter (\<lambda>p. fst p = k) (concat tbl) = filter (\<lambda>p. fst p = k) (tbl ! home n k)"
    using h(2) by (simp add: filter_concat n_def)
  then show ?thesis
    using wf(2) h(1) by (simp add: chain_values_def sc_values_def tbl_def)
qed

lemma sc_inv_parts:
  assumes "sc_inv s"
  shows "0 < sc_hash_groups s" "sc_hash_groups s = int (length (sc_table s))"
    "0 < length (sc_table s)"
    "\<And>g p. g < length (sc_table s) \<Longrightarrow> p \<in> set (sc_table s ! g) \<Longrightarrow>
        0 \<le> fst p \<and> home (length (sc_table s)) (fst p) = g"
proof -
  have a: "0 < sc_hash_groups s" "length (sc_table s) = nat (sc_hash_groups s)"
    and c: "\<forall>g<length (sc_table s). \<forall>p\<in>set (sc_table s ! g).
              0 \<le> fst p \<and> home (length (sc_table s)) (fst p) = g"
    using assms unfolding sc_inv_iff by blast+
  show "0 < sc_hash_groups s" by (rule a(1))
  show "sc_hash_groups s = int (length (sc_table s))" using a by simp
  show "0 < length (sc_table s)" using a by simp
  show "0 \<le> fst p \<and> home (length (sc_table s)) (fst p) = g"
    if "g < length (sc_table s)" "p \<in> set (sc_table s ! g)" for g p
    using c that by blast
qed

lemma sc_invI:
  assumes "0 < n" "sc_hash_groups s = int n" "length (sc_table s) = n"
    and "\<And>g p. g < n \<Longrightarrow> p \<in> set (sc_table s ! g) \<Longrightarrow> 0 \<le> fst p \<and> home n (fst p) = g"
  shows "sc_inv s"
  unfolding sc_inv_iff using assms by auto

lemma sc_get_values:
  assumes "0 < sc_hash_groups s" "length (sc_table s) = nat (sc_hash_groups s)" "0 \<le> k"
  shows "sc_get s k = Inr (case sc_values s k of [] \<Rightarrow> - 1 | v # _ \<Rightarrow> v)"
proof -
  have "0 \<le> c_rem k (sc_hash_groups s)" "c_rem k (sc_hash_groups s) < sc_hash_groups s"
    using assms(1,3) by (simp_all add: c_rem_nonneg)
  then show ?thesis
    using assms(1,2) by (simp add: sc_get_def in_range_def first_match_values sc_values_def)
qed

lemma sc_resize_inv:
  assumes inv: "sc_inv s"
  shows "\<exists>s'. sc_resize s = Inr s' \<and> sc_inv s' \<and> sc_elements s' = sc_elements s \<and>
           (\<forall>k\<ge>0. sc_values s' k = sc_values s k)"
proof (cases "c_div (sc_elements s) (sc_hash_groups s) < 3")
  case True
  then show ?thesis using inv sc_inv_parts(1) [OF inv] by (simp add: sc_resize_def)
next
  case False
  define tbl where "tbl = sc_table s"
  define n where "n = length tbl"
  note parts = sc_inv_parts [OF inv, folded tbl_def n_def]
  have nonneg: "\<forall>p\<in>set (concat tbl). 0 \<le> fst p"
  proof
    fix p assume "p \<in> set (concat tbl)"
    then obtain c where "c \<in> set tbl" "p \<in> set c" by auto
    then obtain g where "g < n" "p \<in> set (tbl ! g)" unfolding n_def by (metis in_set_conv_nth)
    then show "0 \<le> fst p" using parts(4) by blast
  qed
  have hg: "sc_hash_groups s * 2 = int (2 * n)" "nat (sc_hash_groups s * 2) = 2 * n"
    using parts(2) by simp_all
  obtain nt where nt: "rehash_group (concat tbl) (int (2 * n)) (replicate (2 * n) []) = Inr nt"
    "length nt = 2 * n"
    "\<forall>g<2 * n. nt ! g = replicate (2 * n) [] ! g @ filter (\<lambda>p. home (2 * n) (fst p) = g) (concat tbl)"
    using rehash_group_run [of "replicate (2 * n) []" "2 * n" "concat tbl"] parts(3) nonneg by auto
  have ntg: "nt ! g = filter (\<lambda>p. home (2 * n) (fst p) = g) (concat tbl)" if "g < 2 * n" for g
    using nt(3) that by simp
  define s' where "s' = s\<lparr>sc_table := nt, sc_hash_groups := sc_hash_groups s * 2\<rparr>"
  have "rehash_groups (sc_table s) (sc_hash_groups s * 2) (replicate (nat (sc_hash_groups s * 2)) [])
          = Inr nt"
    using nt(1) by (simp only: rehash_groups_concat hg(1) nat_int tbl_def)
  then have run: "sc_resize s = Inr s'"
    using False parts(1) by (simp add: sc_resize_def s'_def)
  have inv': "sc_inv s'"
  proof (rule sc_invI [of "2 * n"])
    show "0 < 2 * n" using parts(3) by simp
    show "sc_hash_groups s' = int (2 * n)" using hg(1) by (simp add: s'_def)
    show "length (sc_table s') = 2 * n" using nt(2) by (simp add: s'_def)
    show "0 \<le> fst p \<and> home (2 * n) (fst p) = g" if "g < 2 * n" "p \<in> set (sc_table s' ! g)" for g p
      using that nonneg ntg [OF that(1)] by (auto simp: s'_def)
  qed
  have vals: "sc_values s' k = sc_values s k" if "0 \<le> k" for k
  proof -
    have h: "c_rem k (int (2 * n)) = int (home (2 * n) k)" "home (2 * n) k < 2 * n"
      using home_nonneg [OF that, of "2 * n"] parts(3) by simp_all
    have "sc_values s' k = chain_values k (nt ! nat (c_rem k (sc_hash_groups s * 2)))"
      by (simp add: sc_values_def s'_def)
    also have "\<dots> = chain_values k (nt ! home (2 * n) k)"
      by (simp only: hg(1) home_def)
    also have "\<dots> = chain_values k (concat tbl)"
    proof -
      have "filter (\<lambda>p. fst p = k) (filter (\<lambda>p. home (2 * n) (fst p) = home (2 * n) k) (concat tbl))
              = filter (\<lambda>p. fst p = k) (concat tbl)"
        by (simp add: conj_commute) (metis (mono_tags, lifting) filter_cong)
      then show ?thesis by (simp add: chain_values_def ntg [OF h(2)])
    qed
    also have "\<dots> = sc_values s k"
      using sc_inv_all_values [OF inv that] by (simp add: tbl_def)
    finally show ?thesis .
  qed
  show ?thesis using run inv' vals by (intro exI [of _ s']) (simp add: s'_def)
qed

lemma erase_first_subset: "erase_first key chain = Some chain' \<Longrightarrow> set chain' \<subseteq> set chain"
  by (induction chain arbitrary: chain') (auto split: if_splits)

lemma sc_update_chain:
  assumes inv: "sc_inv s" and key: "0 \<le> key"
    and sub: "set chain \<subseteq> insert (key, v) (set (sc_table s ! home (length (sc_table s)) key))"
  shows "sc_inv (s\<lparr>sc_table := (sc_table s)[home (length (sc_table s)) key := chain], sc_elements := e\<rparr>)"
    and "\<forall>k\<ge>0. sc_values (s\<lparr>sc_table := (sc_table s)[home (length (sc_table s)) key := chain],
                                sc_elements := e\<rparr>) k =
            (if home (length (sc_table s)) k = home (length (sc_table s)) key then chain_values k chain
             else sc_values s k)"
proof -
  define tbl where "tbl = sc_table s"
  define n where "n = length tbl"
  define g0 where "g0 = home n key"
  note parts = sc_inv_parts [OF inv, folded tbl_def n_def]
  have g0: "g0 < n" using home_nonneg [OF key parts(3)] by (simp add: g0_def)
  let ?s' = "s\<lparr>sc_table := tbl[g0 := chain], sc_elements := e\<rparr>"
  show "sc_inv (s\<lparr>sc_table := (sc_table s)[home (length (sc_table s)) key := chain], sc_elements := e\<rparr>)"
    unfolding tbl_def [symmetric] n_def [symmetric] g0_def [symmetric]
  proof (rule sc_invI [of n])
    show "0 < n" by (rule parts(3))
    show "sc_hash_groups ?s' = int n" using parts(2) by simp
    show "length (sc_table ?s') = n" by (simp add: n_def)
    show "0 \<le> fst p \<and> home n (fst p) = g" if "g < n" "p \<in> set (sc_table ?s' ! g)" for g p
    proof (cases "g = g0")
      case True
      then have "p = (key, v) \<or> p \<in> set (tbl ! g0)"
        using that sub by (auto simp: n_def tbl_def g0_def)
      then show ?thesis
      proof
        assume "p = (key, v)"
        then show ?thesis using key True by (simp add: g0_def)
      next
        assume "p \<in> set (tbl ! g0)"
        then show ?thesis using parts(4) [OF g0, of p] True by simp
      qed
    next
      case False
      then show ?thesis using that parts(4) [of g p] by simp
    qed
  qed
  show "\<forall>k\<ge>0. sc_values (s\<lparr>sc_table := (sc_table s)[home (length (sc_table s)) key := chain],
                                sc_elements := e\<rparr>) k =
            (if home (length (sc_table s)) k = home (length (sc_table s)) key then chain_values k chain
             else sc_values s k)"
    unfolding tbl_def [symmetric] n_def [symmetric] g0_def [symmetric]
  proof (intro allI impI)
    fix k :: int assume k: "0 \<le> k"
    have hk: "nat (c_rem k (sc_hash_groups s)) = home n k" "home n k < n"
      using home_nonneg [OF k parts(3)] parts(2) by (simp_all add: home_def)
    show "sc_values ?s' k = (if home n k = g0 then chain_values k chain else sc_values s k)"
      using hk g0 by (simp add: sc_values_def n_def tbl_def)
  qed
qed

lemma sc_insert_inv:
  assumes inv: "sc_inv s" and key: "0 \<le> key"
  shows "\<exists>s'. sc_insert s key v = Inr s' \<and> sc_inv s' \<and> sc_elements s' = sc_elements s + 1 \<and>
           (\<forall>k\<ge>0. sc_values s' k = sc_values s k @ (if k = key then [v] else []))"
proof -
  define n where "n = length (sc_table s)"
  define g0 where "g0 = home n key"
  define s1 where "s1 = s\<lparr>sc_table := (sc_table s)[g0 := sc_table s ! g0 @ [(key, v)]],
                          sc_elements := sc_elements s + 1\<rparr>"
  note parts = sc_inv_parts [OF inv, folded n_def]
  have h: "c_rem key (int n) = int g0" "g0 < n"
    using home_nonneg [OF key parts(3)] by (simp_all add: g0_def)
  have run: "sc_insert s key v = sc_resize s1"
    using parts(1,2) h by (simp add: sc_insert_def in_range_def Let_def s1_def n_def)
  have inv1: "sc_inv s1"
    and vals1: "\<forall>k\<ge>0. sc_values s1 k =
        (if home n k = g0 then chain_values k (sc_table s ! g0 @ [(key, v)]) else sc_values s k)"
    using sc_update_chain [OF inv key, of "sc_table s ! g0 @ [(key, v)]" v "sc_elements s + 1"]
    unfolding s1_def g0_def n_def by auto
  have v1: "sc_values s1 k = sc_values s k @ (if k = key then [v] else [])" if "0 \<le> k" for k
  proof (cases "home n k = g0")
    case True
    have "nat (c_rem k (sc_hash_groups s)) = g0" using True parts(2) by (simp add: home_def)
    then have "sc_values s k = chain_values k (sc_table s ! g0)" by (simp add: sc_values_def)
    then show ?thesis using vals1 that True by (simp add: chain_values_append) (simp add: chain_values_def)
  next
    case False
    then have "k \<noteq> key" by (auto simp: g0_def)
    then show ?thesis using vals1 that False by simp
  qed
  obtain s' where s': "sc_resize s1 = Inr s'" "sc_inv s'" "sc_elements s' = sc_elements s1"
    "\<forall>k\<ge>0. sc_values s' k = sc_values s1 k"
    using sc_resize_inv [OF inv1] by blast
  show ?thesis
    using run s' v1 by (intro exI [of _ s']) (simp add: s1_def)
qed

lemma sc_remove_inv:
  assumes inv: "sc_inv s" and key: "0 \<le> key"
  shows "\<exists>s'. sc_remove s key = Inr s' \<and> sc_inv s' \<and>
           sc_elements s' = (if sc_values s key = [] then sc_elements s else sc_elements s - 1) \<and>
           (\<forall>k\<ge>0. sc_values s' k = (if k = key then tl (sc_values s k) else sc_values s k))"
proof -
  define n where "n = length (sc_table s)"
  define g0 where "g0 = home n key"
  note parts = sc_inv_parts [OF inv, folded n_def]
  have h: "c_rem key (int n) = int g0" "g0 < n"
    using home_nonneg [OF key parts(3)] by (simp_all add: g0_def)
  have mine: "sc_values s key = chain_values key (sc_table s ! g0)"
    using h(1) parts(2) by (simp add: sc_values_def)
  show ?thesis
  proof (cases "erase_first key (sc_table s ! g0)")
    case None
    then have "sc_remove s key = Inr s"
      using parts(1,2) h by (simp add: sc_remove_def in_range_def Let_def n_def)
    moreover have "sc_values s key = []" using None mine by (simp add: erase_first_None)
    ultimately show ?thesis using inv by (intro exI [of _ s]) simp
  next
    case (Some chain)
    define s' where "s' = s\<lparr>sc_table := (sc_table s)[g0 := chain], sc_elements := sc_elements s - 1\<rparr>"
    have run: "sc_remove s key = Inr s'"
      using Some parts(1,2) h by (simp add: sc_remove_def in_range_def Let_def n_def s'_def)
    have sub: "set chain \<subseteq> insert (key, 0) (set (sc_table s ! home (length (sc_table s)) key))"
      using erase_first_subset [OF Some] by (auto simp: g0_def n_def)
    have inv': "sc_inv s'"
      and vals': "\<forall>k\<ge>0. sc_values s' k = (if home n k = g0 then chain_values k chain else sc_values s k)"
      using sc_update_chain [OF inv key sub, of "sc_elements s - 1"]
      unfolding s'_def g0_def n_def by auto
    have ne: "sc_values s key \<noteq> []" using Some mine erase_first_None [of key "sc_table s ! g0"] by auto
    have v: "sc_values s' k = (if k = key then tl (sc_values s k) else sc_values s k)" if "0 \<le> k" for k
    proof (cases "home n k = g0")
      case True
      have "nat (c_rem k (sc_hash_groups s)) = g0" using True parts(2) by (simp add: home_def)
      then have old: "sc_values s k = chain_values k (sc_table s ! g0)" by (simp add: sc_values_def)
      show ?thesis
      proof (cases "k = key")
        case True
        then show ?thesis using vals' that \<open>home n k = g0\<close> old erase_first_Some [OF Some] by simp
      next
        case False
        then show ?thesis using vals' that \<open>home n k = g0\<close> old erase_first_other [OF Some False] by simp
      qed
    next
      case False
      then have "k \<noteq> key" by (auto simp: g0_def)
      then show ?thesis using vals' that False by simp
    qed
    show ?thesis using run inv' v ne by (intro exI [of _ s']) (simp add: s'_def)
  qed
qed

section \<open>Sequences of calls\<close>

lemma sc_construct_inv:
  assumes "0 < n"
  shows "\<exists>s. sc_construct n = Inr s \<and> sc_inv s \<and> sc_elements s = 0 \<and> sc_hash_groups s = n \<and>
           (\<forall>k\<ge>0. sc_values s k = [])"
proof -
  define s where "s = \<lparr>sc_hash_groups = n, sc_elements = 0, sc_table = replicate (nat n) []\<rparr>"
  have "sc_inv s" using assms by (simp add: sc_inv_iff s_def)
  moreover have "sc_values s k = []" if "0 \<le> k" for k
  proof -
    have "nat (c_rem k n) < nat n" using that assms by (simp add: c_rem_nonneg)
    then show ?thesis by (simp add: sc_values_def s_def chain_values_def)
  qed
  moreover have "sc_construct n = Inr s" using assms by (simp add: sc_construct_def s_def)
  ultimately show ?thesis by (intro exI [of _ s]) (simp add: s_def)
qed

lemma sc_run_inserts:
  assumes "sc_inv s" "\<forall>p\<in>set kvs. 0 \<le> fst p"
  shows "\<exists>s'. sc_run s (map (\<lambda>p. Insert (fst p) (snd p)) kvs) = Inr s' \<and> sc_inv s' \<and>
           sc_elements s' = sc_elements s + int (length kvs) \<and>
           (\<forall>k\<ge>0. sc_values s' k = sc_values s k @ chain_values k kvs)"
  using assms
proof (induction kvs arbitrary: s)
  case Nil
  then show ?case by (simp add: chain_values_def)
next
  case (Cons p kvs)
  obtain s1 where s1: "sc_insert s (fst p) (snd p) = Inr s1" "sc_inv s1"
    "sc_elements s1 = sc_elements s + 1"
    "\<forall>k\<ge>0. sc_values s1 k = sc_values s k @ (if k = fst p then [snd p] else [])"
    using sc_insert_inv [OF Cons.prems(1), of "fst p" "snd p"] Cons.prems(2) by auto
  obtain s' where s': "sc_run s1 (map (\<lambda>p. Insert (fst p) (snd p)) kvs) = Inr s'" "sc_inv s'"
    "sc_elements s' = sc_elements s1 + int (length kvs)"
    "\<forall>k\<ge>0. sc_values s' k = sc_values s1 k @ chain_values k kvs"
    using Cons.IH [OF s1(2)] Cons.prems(2) by auto
  have "\<forall>k\<ge>0. sc_values s' k = sc_values s k @ chain_values k (p # kvs)"
    using s'(4) s1(4) by (auto simp: chain_values_def)
  then show ?case using s1(1,3) s'(1,2,3) by (intro exI [of _ s']) simp
qed

lemma sc_run_inv:
  assumes "sc_inv s" "\<forall>x\<in>set ops. 0 \<le> op_key x"
  shows "\<exists>s'. sc_run s ops = Inr s' \<and> sc_inv s' \<and>
           (\<forall>k\<ge>0. (\<forall>x\<in>set ops. op_key x \<noteq> k) \<longrightarrow> sc_values s' k = sc_values s k)"
  using assms
proof (induction ops arbitrary: s)
  case Nil
  then show ?case by simp
next
  case (Cons x ops)
  have "\<exists>s1. sc_run s [x] = Inr s1 \<and> sc_inv s1 \<and>
          (\<forall>k\<ge>0. op_key x \<noteq> k \<longrightarrow> sc_values s1 k = sc_values s k)"
  proof (cases x)
    case (Insert k' v)
    then show ?thesis
      using sc_insert_inv [OF Cons.prems(1), of k' v] Cons.prems(2) by auto
  next
    case (Remove k')
    then show ?thesis
      using sc_remove_inv [OF Cons.prems(1), of k'] Cons.prems(2) by auto
  qed
  then obtain s1 where s1: "sc_run s [x] = Inr s1" "sc_inv s1"
    "\<forall>k\<ge>0. op_key x \<noteq> k \<longrightarrow> sc_values s1 k = sc_values s k" by blast
  obtain s' where s': "sc_run s1 ops = Inr s'" "sc_inv s'"
    "\<forall>k\<ge>0. (\<forall>x\<in>set ops. op_key x \<noteq> k) \<longrightarrow> sc_values s' k = sc_values s1 k"
    using Cons.IH [OF s1(2)] Cons.prems(2) by auto
  have "sc_run s (x # ops) = Inr s'"
    using s1(1) s'(1) by (cases x) (auto split: sum.splits)
  then show ?case using s'(2,3) s1(3) by (intro exI [of _ s']) simp
qed

lemma chain_values_map_of:
  "map_of kvs k = Some v \<Longrightarrow> \<exists>vs. chain_values k kvs = v # vs"
  by (induction kvs) (auto simp: chain_values_def split: if_splits)

lemma lp_run_inserts_nonneg:
  assumes "lp_inv t" "\<forall>p\<in>set kvs. 0 \<le> fst p"
  shows "\<exists>t'. lp_run t (map (\<lambda>p. Insert (fst p) (snd p)) kvs) = Some (Inr t') \<and> lp_inv t' \<and>
           (4 \<le> lp_hash_groups t \<and> 4 * lp_elements t < 3 * lp_hash_groups t + 4 \<longrightarrow>
            4 \<le> lp_hash_groups t' \<and> 4 * lp_elements t' < 3 * lp_hash_groups t' + 4)"
  using assms
proof (induction kvs arbitrary: t)
  case Nil
  then show ?case by simp
next
  case (Cons p kvs)
  obtain t1 where t1: "lp_insert t (fst p) (snd p) = Some (Inr t1)" "lp_inv t1"
    "lp_hash_groups t1 = (if load_reached (lp_elements t) (lp_hash_groups t)
                          then lp_hash_groups t * 2 else lp_hash_groups t)"
    "lp_elements t1 = (if fst p = 0 \<or> lp_map (lp_table t) (fst p) \<noteq> None then lp_elements t
                       else lp_elements t + 1)"
    using lp_insert_inv [OF Cons.prems(1), of "fst p" "snd p"] Cons.prems(2) by auto
  have load1: "4 \<le> lp_hash_groups t1 \<and> 4 * lp_elements t1 < 3 * lp_hash_groups t1 + 4"
    if "4 \<le> lp_hash_groups t \<and> 4 * lp_elements t < 3 * lp_hash_groups t + 4"
    using that t1(3,4) by (auto simp: load_reached_int split: if_splits)
  obtain t' where t': "lp_run t1 (map (\<lambda>p. Insert (fst p) (snd p)) kvs) = Some (Inr t')" "lp_inv t'"
    "4 \<le> lp_hash_groups t1 \<and> 4 * lp_elements t1 < 3 * lp_hash_groups t1 + 4 \<longrightarrow>
       4 \<le> lp_hash_groups t' \<and> 4 * lp_elements t' < 3 * lp_hash_groups t' + 4"
    using Cons.IH [OF t1(2)] Cons.prems(2) by auto
  show ?case using t1(1) t' load1 by (intro exI [of _ t']) simp
qed

lemma one_entry_alist:
  "distinct (map fst xs) \<Longrightarrow> (k, v) \<in> set xs \<Longrightarrow> filter (\<lambda>p. fst p = k) xs = [(k, v)]"
proof (induction xs)
  case Nil
  then show ?case by simp
next
  case (Cons x xs)
  show ?case
  proof (cases "fst x = k")
    case True
    then have "k \<notin> fst ` set xs" using Cons.prems(1) by auto
    then have "x = (k, v)" "filter (\<lambda>p. fst p = k) xs = []"
      using Cons.prems(2) True by (auto simp: filter_empty_conv image_iff)
    then show ?thesis by simp
  next
    case False
    then show ?thesis using Cons by auto
  qed
qed

lemma lp_inv_one_entry:
  assumes "lp_inv t" "lp_map (lp_table t) k = Some v"
  shows "filter (\<lambda>p. fst p = k) (lp_table t) = [(k, v)]"
proof -
  have dk: "distinct (map fst (filter (\<lambda>p. fst p \<noteq> 0) (lp_table t)))"
    using assms(1) by (simp add: lp_inv_def)
  have kv: "(k, v) \<in> set (lp_table t)" "k \<noteq> 0" using assms(2) lp_map_iff [OF dk] by simp_all
  have "filter (\<lambda>p. fst p = k) (filter (\<lambda>p. fst p \<noteq> 0) (lp_table t)) = [(k, v)]"
    using kv by (intro one_entry_alist [OF dk]) simp
  moreover have "(\<lambda>p::int \<times> int. fst p \<noteq> 0 \<and> fst p = k) = (\<lambda>p. fst p = k)" using kv(2) by auto
  ultimately show ?thesis by simp
qed

section \<open>No scan leaves the vector\<close>

lemma next_in_range:
  assumes "in_range tbl index" "hg = int (length tbl)"
  shows "hg \<noteq> 0" "in_range tbl (c_rem (index + 1) hg)"
proof -
  have "0 \<le> index" "index < hg" using assms by (simp_all add: in_range_def)
  then have hg: "0 < hg" by simp
  then show "hg \<noteq> 0" by simp
  have "c_rem (index + 1) hg = (index + 1) mod hg"
    using \<open>0 \<le> index\<close> hg by (simp add: c_rem_nonneg)
  moreover have "0 \<le> (index + 1) mod hg" "(index + 1) mod hg < hg" using hg by simp_all
  ultimately show "in_range tbl (c_rem (index + 1) hg)"
    using assms(2) by (simp add: in_range_def)
qed

lemma remove_scan_in_bounds:
  assumes "remove_scan tbl hg key index = Some r"
  shows "hg = int (length tbl) \<longrightarrow> in_range tbl index \<longrightarrow> (\<exists>j. r = Inr j \<and> in_range tbl j)"
proof (rule remove_scan.raw_induct
    [where P = "\<lambda>tbl hg key index r.
       hg = int (length tbl) \<longrightarrow> in_range tbl index \<longrightarrow> (\<exists>j. r = Inr j \<and> in_range tbl j)",
     OF _ assms])
  fix rs :: "(int \<times> int) list \<Rightarrow> int \<Rightarrow> int \<Rightarrow> int \<Rightarrow> (error + int) option"
  fix tbl hg key index r
  assume IH: "\<And>tbl hg key index r. rs tbl hg key index = Some r \<Longrightarrow>
      hg = int (length tbl) \<longrightarrow> in_range tbl index \<longrightarrow> (\<exists>j. r = Inr j \<and> in_range tbl j)"
    and eq: "(if \<not> in_range tbl index then Some (Inl OutOfBounds)
      else if fst (tbl ! nat index) \<noteq> key
        then (if hg = 0 then Some (Inl DivByZero)
              else rs tbl hg key (c_rem (index + 1) hg))
      else Some (Inr index)) = Some r"
  show "hg = int (length tbl) \<longrightarrow> in_range tbl index \<longrightarrow> (\<exists>j. r = Inr j \<and> in_range tbl j)"
  proof (intro impI)
    assume hg: "hg = int (length tbl)" and rng: "in_range tbl index"
    note nx = next_in_range [OF rng hg]
    show "\<exists>j. r = Inr j \<and> in_range tbl j"
    proof (cases "fst (tbl ! nat index) \<noteq> key")
      case True
      then have "rs tbl hg key (c_rem (index + 1) hg) = Some r"
        using eq rng nx(1) by simp
      then show ?thesis using IH hg nx(2) by blast
    next
      case False
      then show ?thesis using eq rng by auto
    qed
  qed
qed

lemma insert_scan_in_bounds:
  assumes "insert_scan tbl hg key index = Some r"
  shows "hg = int (length tbl) \<longrightarrow> in_range tbl index \<longrightarrow> (\<exists>j. r = Inr j \<and> in_range tbl j)"
proof (rule insert_scan.raw_induct
    [where P = "\<lambda>tbl hg key index r.
       hg = int (length tbl) \<longrightarrow> in_range tbl index \<longrightarrow> (\<exists>j. r = Inr j \<and> in_range tbl j)",
     OF _ assms])
  fix rs :: "(int \<times> int) list \<Rightarrow> int \<Rightarrow> int \<Rightarrow> int \<Rightarrow> (error + int) option"
  fix tbl hg key index r
  assume IH: "\<And>tbl hg key index r. rs tbl hg key index = Some r \<Longrightarrow>
      hg = int (length tbl) \<longrightarrow> in_range tbl index \<longrightarrow> (\<exists>j. r = Inr j \<and> in_range tbl j)"
    and eq: "(if \<not> in_range tbl index then Some (Inl OutOfBounds)
      else if fst (tbl ! nat index) \<noteq> 0 \<and> fst (tbl ! nat index) \<noteq> key
        then (if hg = 0 then Some (Inl DivByZero)
              else rs tbl hg key (c_rem (index + 1) hg))
      else Some (Inr index)) = Some r"
  show "hg = int (length tbl) \<longrightarrow> in_range tbl index \<longrightarrow> (\<exists>j. r = Inr j \<and> in_range tbl j)"
  proof (intro impI)
    assume hg: "hg = int (length tbl)" and rng: "in_range tbl index"
    note nx = next_in_range [OF rng hg]
    show "\<exists>j. r = Inr j \<and> in_range tbl j"
    proof (cases "fst (tbl ! nat index) \<noteq> 0 \<and> fst (tbl ! nat index) \<noteq> key")
      case True
      then have "rs tbl hg key (c_rem (index + 1) hg) = Some r"
        using eq rng nx(1) by simp
      then show ?thesis using IH hg nx(2) by blast
    next
      case False
      then show ?thesis using eq rng by auto
    qed
  qed
qed

lemma home_index:
  assumes "0 \<le> key" "0 < hg" "length tbl = nat hg"
  shows "c_rem key hg = spec_index key hg" "in_range tbl (c_rem key hg)" "hg = int (length tbl)"
  using assms by (simp_all add: spec_index_def c_rem_nonneg in_range_def)

lemma lp_remove_no_error:
  assumes "0 \<le> key" "0 < lp_hash_groups t" "length (lp_table t) = nat (lp_hash_groups t)"
  shows "lp_remove t key \<noteq> Some (Inl e)"
proof
  assume err: "lp_remove t key = Some (Inl e)"
  note h = home_index [OF assms]
  show False
  proof (cases "remove_scan (lp_table t) (lp_hash_groups t) key (c_rem key (lp_hash_groups t))")
    case None
    then show False using err assms(2) by (simp add: lp_remove_def)
  next
    case (Some r)
    then obtain j where "r = Inr j" using remove_scan_in_bounds [OF Some] h(2,3) by blast
    then show False using err Some assms(2) by (simp add: lp_remove_def)
  qed
qed

lemma lp_place_no_error:
  assumes "0 \<le> key" "0 < lp_hash_groups t" "length (lp_table t) = nat (lp_hash_groups t)"
  shows "lp_place t key v \<noteq> Some (Inl e)"
proof
  assume err: "lp_place t key v = Some (Inl e)"
  note h = home_index [OF assms]
  show False
  proof (cases "insert_scan (lp_table t) (lp_hash_groups t) key (c_rem key (lp_hash_groups t))")
    case None
    then show False using err assms(2) by (simp add: lp_place_def)
  next
    case (Some r)
    then obtain j where "r = Inr j" using insert_scan_in_bounds [OF Some] h(2,3) by blast
    then show False using err Some assms(2) by (simp add: lp_place_def)
  qed
qed

lemma lp_insert_no_error:
  assumes "0 \<le> key" "0 < lp_hash_groups t" "length (lp_table t) = nat (lp_hash_groups t)"
    and "\<forall>p\<in>set (lp_table t). 0 \<le> fst p"
  shows "lp_insert t key v \<noteq> Some (Inl e)"
proof (cases "load_reached (lp_elements t) (lp_hash_groups t)")
  case True
  obtain nt where nt: "lp_resize t = Some (Inr (t\<lparr>lp_hash_groups := lp_hash_groups t * 2, lp_table := nt\<rparr>))"
    "length nt = nat (lp_hash_groups t * 2)"
    using lp_resize_run [OF assms(2,3,4)] by blast
  have "lp_place (t\<lparr>lp_hash_groups := lp_hash_groups t * 2, lp_table := nt\<rparr>) key v \<noteq> Some (Inl e)"
    using assms(2) nt(2) by (intro lp_place_no_error [OF assms(1)]) simp_all
  then show ?thesis using True nt(1) by (simp add: lp_insert_def)
next
  case False
  then show ?thesis using lp_place_no_error [OF assms(1,2,3)] by (simp add: lp_insert_def)
qed

lemma sc_resize_total:
  assumes "0 < sc_hash_groups s" "length (sc_table s) = nat (sc_hash_groups s)"
    and "\<forall>c\<in>set (sc_table s). \<forall>p\<in>set c. 0 \<le> fst p"
  shows "\<exists>s'. sc_resize s = Inr s'"
proof (cases "c_div (sc_elements s) (sc_hash_groups s) < 3")
  case True
  then show ?thesis using assms(1) by (simp add: sc_resize_def)
next
  case False
  define n where "n = length (sc_table s)"
  have hg: "sc_hash_groups s * 2 = int (2 * n)" "0 < n" using assms(1,2) by (simp_all add: n_def)
  have "\<forall>p\<in>set (concat (sc_table s)). 0 \<le> fst p" using assms(3) by auto
  then obtain nt where "rehash_group (concat (sc_table s)) (int (2 * n)) (replicate (2 * n) []) = Inr nt"
    using rehash_group_run [of "replicate (2 * n) []" "2 * n" "concat (sc_table s)"] hg(2) by auto
  then have "rehash_groups (sc_table s) (sc_hash_groups s * 2) (replicate (nat (sc_hash_groups s * 2)) [])
          = Inr nt"
    by (simp only: rehash_groups_concat hg(1) nat_int)
  then show ?thesis using False assms(1) by (simp add: sc_resize_def)
qed

lemma probe_ok_lost_after_remove: "\<not> probe_ok [(0, 0), (0, 0), (6, 600), (0, 0), (0, 0)]"
  by code_simp

section \<open>Tables that remove has not touched\<close>

text \<open>
  Insert any pairs with positive keys into a fresh table of \<open>n > 0\<close> buckets, resizing as
  often as the load demands. Every call returns, and afterwards \<open>get\<close> finds every inserted
  key: in the probing table with the value of its last insert, in the chained table (which
  keeps duplicates) with the value of its first insert. The calls of \<open>main\<close> on 5 buckets
  grow both tables and leave \<open>get(20) = 2000\<close>.
\<close>

lemma resize_keeps_entries:
  assumes "0 < n" "\<forall>p\<in>set kvs. 0 < fst p"
  shows "(\<exists>t. lp_new_run n (map (\<lambda>p. Insert (fst p) (snd p)) kvs) = Some (Inr t) \<and>
              (\<forall>k v. map_of (rev kvs) k = Some v \<longrightarrow> lp_get t k = Some (Inr v))) \<and>
         (\<exists>s. sc_new_run n (map (\<lambda>p. Insert (fst p) (snd p)) kvs) = Inr s \<and>
              (\<forall>k v. map_of kvs k = Some v \<longrightarrow> sc_get s k = Inr v)) \<and>
         (\<exists>t. lp_new_run 5 demo_ops = Some (Inr t) \<and> lp_hash_groups t = 40 \<and>
              lp_get t 20 = Some (Inr 2000)) \<and>
         (\<exists>s. sc_new_run 5 demo_ops = Inr s \<and> sc_hash_groups s = 10 \<and> sc_get s 20 = Inr 2000)"
proof (intro conjI)
  obtain t0 where t0: "lp_construct n = Inr t0" "lp_inv t0" "lp_map (lp_table t0) = Map.empty"
    using lp_construct_inv [OF assms(1)] by blast
  obtain t where t: "lp_run t0 (map (\<lambda>p. Insert (fst p) (snd p)) kvs) = Some (Inr t)" "lp_inv t"
    "lp_map (lp_table t) = lp_map (lp_table t0) ++ map_of (rev kvs)"
    using lp_run_inserts [OF t0(2) assms(2)] by blast
  have "lp_get t k = Some (Inr v)" if "map_of (rev kvs) k = Some v" for k v
    using lp_get_inv [OF t(2), of k v] t(3) t0(3) that by simp
  then show "\<exists>t. lp_new_run n (map (\<lambda>p. Insert (fst p) (snd p)) kvs) = Some (Inr t) \<and>
              (\<forall>k v. map_of (rev kvs) k = Some v \<longrightarrow> lp_get t k = Some (Inr v))"
    using t(1) t0(1) by (intro exI [of _ t]) (simp add: lp_new_run_def)
next
  have nonneg: "\<forall>p\<in>set kvs. 0 \<le> fst p" using assms(2) by auto
  obtain s0 where s0: "sc_construct n = Inr s0" "sc_inv s0" "\<forall>k\<ge>0. sc_values s0 k = []"
    using sc_construct_inv [OF assms(1)] by blast
  obtain s where s: "sc_run s0 (map (\<lambda>p. Insert (fst p) (snd p)) kvs) = Inr s" "sc_inv s"
    "\<forall>k\<ge>0. sc_values s k = sc_values s0 k @ chain_values k kvs"
    using sc_run_inserts [OF s0(2) nonneg] by blast
  have "sc_get s k = Inr v" if m: "map_of kvs k = Some v" for k v
  proof -
    have "(k, v) \<in> set kvs" using m by (rule map_of_SomeD)
    then have k: "0 \<le> k" using nonneg by auto
    obtain vs where "chain_values k kvs = v # vs" using chain_values_map_of [OF m] by blast
    then have vals: "sc_values s k = v # vs" using s(3) s0(3) k by simp
    have a: "0 < sc_hash_groups s" "length (sc_table s) = nat (sc_hash_groups s)"
      using s(2) unfolding sc_inv_iff by blast+
    show ?thesis unfolding sc_get_values [OF a k] by (simp add: vals)
  qed
  then show "\<exists>s. sc_new_run n (map (\<lambda>p. Insert (fst p) (snd p)) kvs) = Inr s \<and>
              (\<forall>k v. map_of kvs k = Some v \<longrightarrow> sc_get s k = Inr v)"
    using s(1) s0(1) by (intro exI [of _ s]) (simp add: sc_new_run_def)
next
  have "(case lp_new_run 5 demo_ops of
           Some (Inr t) \<Rightarrow> lp_hash_groups t = 40 \<and> lp_get t 20 = Some (Inr 2000) | _ \<Rightarrow> False)"
    by code_simp
  then show "\<exists>t. lp_new_run 5 demo_ops = Some (Inr t) \<and> lp_hash_groups t = 40 \<and>
              lp_get t 20 = Some (Inr 2000)"
    by (auto split: option.splits sum.splits)
next
  have "(case sc_new_run 5 demo_ops of
           Inr s \<Rightarrow> sc_hash_groups s = 10 \<and> sc_get s 20 = Inr 2000 | _ \<Rightarrow> False)"
    by code_simp
  then show "\<exists>s. sc_new_run 5 demo_ops = Inr s \<and> sc_hash_groups s = 10 \<and> sc_get s 20 = Inr 2000"
    by (auto split: sum.splits)
qed

lemma resize_keeps_entries_witness:
  "(0::int) < 2 \<and>
   map_of (rev [(3, 30), (5, 50), (9, 90), (3, 31::int)]) (3::int) = Some 31 \<and>
   map_of [(3, 30), (5, 50), (9, 90), (3, 31::int)] (3::int) = Some 30 \<and>
   (\<exists>t. lp_new_run 2 (map (\<lambda>p. Insert (fst p) (snd p)) [(3, 30), (5, 50), (9, 90), (3, 31)]) = Some (Inr t) \<and>
        lp_hash_groups t = 8 \<and> lp_get t 3 = Some (Inr 31) \<and> lp_get t 9 = Some (Inr 90)) \<and>
   (\<exists>s. sc_new_run 2 (map (\<lambda>p. Insert (fst p) (snd p)) [(3, 30), (5, 50), (9, 90), (3, 31)]) = Inr s \<and>
        sc_get s 3 = Inr 30 \<and> sc_get s 9 = Inr 90)"
proof -
  have "(case lp_new_run 2 (map (\<lambda>p. Insert (fst p) (snd p)) [(3, 30), (5, 50), (9, 90), (3, 31)]) of
           Some (Inr t) \<Rightarrow> lp_hash_groups t = 8 | _ \<Rightarrow> False)"
    by code_simp
  then show ?thesis
    using resize_keeps_entries [of 2 "[(3, 30), (5, 50), (9, 90), (3, 31)]"]
    by (auto split: option.splits sum.splits)
qed

text \<open>
  On a probing table reached from a fresh one by inserts alone, inserting a positive key twice
  updates it in place: \<open>elements\<close> is unchanged by the second insert, the table holds the
  single entry \<open>(k, v2)\<close> for \<open>k\<close>, and \<open>get(k)\<close> answers \<open>v2\<close>.
\<close>

lemma lp_insert_twice:
  assumes "0 < n" "\<forall>p\<in>set kvs. 0 \<le> fst p" "0 < k"
  shows "\<exists>t0 t1 t2. lp_new_run n (map (\<lambda>p. Insert (fst p) (snd p)) kvs) = Some (Inr t0) \<and>
           lp_insert t0 k v1 = Some (Inr t1) \<and> lp_insert t1 k v2 = Some (Inr t2) \<and>
           lp_elements t2 = lp_elements t1 \<and>
           filter (\<lambda>p. fst p = k) (lp_table t2) = [(k, v2)] \<and>
           lp_get t2 k = Some (Inr v2)"
proof -
  obtain c where c: "lp_construct n = Inr c" "lp_inv c"
    using lp_construct_inv [OF assms(1)] by blast
  obtain t0 where t0: "lp_run c (map (\<lambda>p. Insert (fst p) (snd p)) kvs) = Some (Inr t0)" "lp_inv t0"
    using lp_run_inserts_nonneg [OF c(2) assms(2)] by blast
  have k: "0 \<le> k" "k \<noteq> 0" using assms(3) by simp_all
  obtain t1 where t1: "lp_insert t0 k v1 = Some (Inr t1)" "lp_inv t1"
    "lp_map (lp_table t1) = (lp_map (lp_table t0))(k \<mapsto> v1)"
    using lp_insert_inv [OF t0(2) k(1), of v1] k(2) by auto
  obtain t2 where t2: "lp_insert t1 k v2 = Some (Inr t2)" "lp_inv t2"
    "lp_map (lp_table t2) = (lp_map (lp_table t1))(k \<mapsto> v2)"
    "lp_elements t2 = (if k = 0 \<or> lp_map (lp_table t1) k \<noteq> None then lp_elements t1
                       else lp_elements t1 + 1)"
    using lp_insert_inv [OF t1(2) k(1), of v2] k(2) by auto
  have m: "lp_map (lp_table t2) k = Some v2" using t2(3) by simp
  have "lp_elements t2 = lp_elements t1" using t2(4) t1(3) by simp
  moreover have "lp_new_run n (map (\<lambda>p. Insert (fst p) (snd p)) kvs) = Some (Inr t0)"
    using c(1) t0(1) by (simp add: lp_new_run_def)
  ultimately show ?thesis
    using t1(1) t2(1) lp_inv_one_entry [OF t2(2) m] lp_get_inv [OF t2(2) m] by blast
qed

lemma lp_insert_twice_witness:
  "(0::int) < 5 \<and> (0::int) < 11 \<and>
   (\<exists>t0 t1 t2. lp_new_run 5 (map (\<lambda>p. Insert (fst p) (snd p)) [(1, 100), (6, 600)]) = Some (Inr t0) \<and>
      lp_insert t0 11 7 = Some (Inr t1) \<and> lp_insert t1 11 8 = Some (Inr t2) \<and>
      lp_elements t2 = lp_elements t1 \<and>
      filter (\<lambda>p. fst p = 11) (lp_table t2) = [(11, 8)] \<and> lp_get t2 11 = Some (Inr 8))"
  using lp_insert_twice [of 5 "[(1, 100), (6, 600)]" 11 7 8] by simp

section \<open>The claims\<close>

text \<open>
  C1 fails on the probing table once a remove has left a hole. On 5 slots, after
  \<open>insert(4, 40)\<close>, \<open>insert(9, 90)\<close>, \<open>remove(4)\<close>, \<open>insert(9, 91)\<close>, \<open>insert(1, 10)\<close>,
  \<open>insert(2, 20)\<close> the table holds key 9 twice (the old pair in slot 0 behind the hole, the
  new pair in the home slot 4) and \<open>get(9)\<close> answers 91. The next \<open>insert(3, 30)\<close> resizes:
  the rehash meets the old pair first and gives it the home slot of the grown table, and
  \<open>get(9)\<close> answers the overwritten value 90.
\<close>

theorem lp_resize_returns_stale_value:
  "lp_new_run 5 [Insert 4 40, Insert 9 90, Remove 4, Insert 9 91, Insert 1 10, Insert 2 20] =
     Some (Inr \<lparr>lp_hash_groups = 5, lp_elements = 4,
                lp_table = [(9, 90), (1, 10), (2, 20), (0, 0), (9, 91)]\<rparr>) \<and>
   lp_get \<lparr>lp_hash_groups = 5, lp_elements = 4,
           lp_table = [(9, 90), (1, 10), (2, 20), (0, 0), (9, 91)]\<rparr> 9 = Some (Inr 91) \<and>
   lp_insert \<lparr>lp_hash_groups = 5, lp_elements = 4,
              lp_table = [(9, 90), (1, 10), (2, 20), (0, 0), (9, 91)]\<rparr> 3 30 =
     Some (Inr \<lparr>lp_hash_groups = 10, lp_elements = 5,
                lp_table = [(9, 91), (1, 10), (2, 20), (3, 30), (0, 0), (0, 0), (0, 0), (0, 0),
                            (0, 0), (9, 90)]\<rparr>) \<and>
   lp_get \<lparr>lp_hash_groups = 10, lp_elements = 5,
           lp_table = [(9, 91), (1, 10), (2, 20), (3, 30), (0, 0), (0, 0), (0, 0), (0, 0),
                       (0, 0), (9, 90)]\<rparr> 9 = Some (Inr 90)"
  by code_simp

text \<open>
  C2 fails on \<open>remove\<close>: after \<open>insert(1, 100)\<close>, \<open>insert(6, 600)\<close>, \<open>remove(1)\<close> on a table of
  5 slots, key 6 sits in slot 2 while its home slot \<open>6 % 5 = 1\<close> is empty, and \<open>get(6)\<close>
  answers \<open>-1\<close>.
\<close>

theorem lp_remove_breaks_probe_sequence:
  "lp_new_run 5 [Insert 1 100, Insert 6 600, Remove 1] =
     Some (Inr \<lparr>lp_hash_groups = 5, lp_elements = 1,
                lp_table = [(0, 0), (0, 0), (6, 600), (0, 0), (0, 0)]\<rparr>) \<and>
   c_rem 6 5 = 1 \<and>
   [(0, 0), (0, 0), (6, 600), (0, 0), (0, 0 :: int)] ! 1 = (0 :: int, 0) \<and>
   [(0, 0), (0, 0), (6, 600), (0, 0), (0, 0 :: int)] ! 2 = (6 :: int, 600) \<and>
   lp_get \<lparr>lp_hash_groups = 5, lp_elements = 1,
           lp_table = [(0, 0), (0, 0), (6, 600), (0, 0), (0, 0)]\<rparr> 6 = Some (Inr (- 1))"
  by code_simp

text \<open>
  C3 (as amended). On a fresh probing table of \<open>n \<ge> 4\<close> slots, after any sequence of inserts
  with non-negative keys, \<open>elements\<close> is the number of occupied slots, that number is below
  \<open>hash_groups\<close>, and it exceeds three quarters of \<open>hash_groups\<close> by less than one: the load
  check runs before the new pair is placed, so the count may pass \<open>0.75 * hash_groups\<close>
  by that pair.
\<close>

theorem lp_load_bound:
  assumes "4 \<le> n" "\<forall>p\<in>set kvs. 0 \<le> fst p"
  shows "\<exists>t. lp_new_run n (map (\<lambda>p. Insert (fst p) (snd p)) kvs) = Some (Inr t) \<and>
           lp_elements t = int (occupied (lp_table t)) \<and>
           int (occupied (lp_table t)) < lp_hash_groups t \<and>
           4 * int (occupied (lp_table t)) < 3 * lp_hash_groups t + 4"
proof -
  obtain t0 where t0: "lp_construct n = Inr t0" "lp_inv t0" "lp_hash_groups t0 = n" "lp_elements t0 = 0"
    using lp_construct_inv [of n] assms(1) by auto
  obtain t where t: "lp_run t0 (map (\<lambda>p. Insert (fst p) (snd p)) kvs) = Some (Inr t)" "lp_inv t"
    "4 \<le> lp_hash_groups t0 \<and> 4 * lp_elements t0 < 3 * lp_hash_groups t0 + 4 \<longrightarrow>
       4 \<le> lp_hash_groups t \<and> 4 * lp_elements t < 3 * lp_hash_groups t + 4"
    using lp_run_inserts_nonneg [OF t0(2) assms(2)] by blast
  have load: "4 \<le> lp_hash_groups t" "4 * lp_elements t < 3 * lp_hash_groups t + 4"
    using t(3) t0(3,4) assms(1) by simp_all
  have el: "lp_elements t = int (occupied (lp_table t))" using t(2) by (simp add: lp_inv_def)
  have "lp_elements t < lp_hash_groups t" using load by linarith
  then show ?thesis
    using t(1) t0(1) el load(2) by (intro exI [of _ t]) (simp add: lp_new_run_def)
qed

theorem lp_load_bound_witness:
  "(4::int) \<le> 4 \<and>
   (\<exists>t. lp_new_run 4 (map (\<lambda>p. Insert (fst p) (snd p)) [(1, 10), (2, 20), (0, 5), (3, 30), (4, 40)])
           = Some (Inr t) \<and>
         lp_elements t = int (occupied (lp_table t)) \<and>
         int (occupied (lp_table t)) < lp_hash_groups t \<and> lp_hash_groups t = 8 \<and> lp_elements t = 4)"
proof -
  have "(case lp_new_run 4 (map (\<lambda>p. Insert (fst p) (snd p)) [(1, 10), (2, 20), (0, 5), (3, 30), (4, 40)]) of
           Some (Inr t) \<Rightarrow> lp_hash_groups t = 8 \<and> lp_elements t = 4 | _ \<Rightarrow> False)"
    by code_simp
  then show ?thesis
    using lp_load_bound [of 4 "[(1, 10), (2, 20), (0, 5), (3, 30), (4, 40)]"]
    by (auto split: option.splits sum.splits)
qed

text \<open>
  C3 as stated fails for an initial bucket count below 4: a table of one slot is full after
  its first insert, since the load check \<open>0 >= 0.75\<close> does not fire.
\<close>

theorem lp_single_slot_full_counterexample:
  "lp_new_run 1 [Insert 1 100] =
     Some (Inr \<lparr>lp_hash_groups = 1, lp_elements = 1, lp_table = [(1, 100)]\<rparr>) \<and>
   int (occupied (lp_table \<lparr>lp_hash_groups = 1, lp_elements = 1, lp_table = [(1, 100)]\<rparr>))
     = lp_hash_groups \<lparr>lp_hash_groups = 1, lp_elements = 1, lp_table = [(1, 100)]\<rparr>"
  by code_simp

text \<open>
  C4 (as amended). Take a non-negative key, a probing table and a chained table whose vectors
  have \<open>hash_groups > 0\<close> buckets and whose stored keys are non-negative. The index
  \<open>key % hash_groups\<close> that the operations compute equals the normalised
  \<open>((key % n) + n) % n\<close> and is in range of the table. Chained \<open>get\<close>, \<open>remove\<close> and
  \<open>insert\<close> work on the chain at that index and return; probing \<open>get\<close>, \<open>remove\<close> and the
  placing part of \<open>insert\<close> start their scan at that index; \<open>get\<close> returns a value, and
  neither \<open>remove\<close> nor \<open>insert\<close> (its resize included) ever reads or writes outside the
  vector.
\<close>

theorem bucket_access_in_bounds:
  assumes "0 \<le> key"
    and "0 < lp_hash_groups t" "length (lp_table t) = nat (lp_hash_groups t)"
      "\<forall>p\<in>set (lp_table t). 0 \<le> fst p"
    and "0 < sc_hash_groups s" "length (sc_table s) = nat (sc_hash_groups s)"
      "\<forall>c\<in>set (sc_table s). \<forall>p\<in>set c. 0 \<le> fst p"
  shows "c_rem key (lp_hash_groups t) = spec_index key (lp_hash_groups t) \<and>
         in_range (lp_table t) (c_rem key (lp_hash_groups t)) \<and>
         c_rem key (sc_hash_groups s) = spec_index key (sc_hash_groups s) \<and>
         in_range (sc_table s) (c_rem key (sc_hash_groups s)) \<and>
         sc_get s key = Inr (first_match key (sc_table s ! nat (spec_index key (sc_hash_groups s)))) \<and>
         sc_remove s key =
           (case erase_first key (sc_table s ! nat (spec_index key (sc_hash_groups s))) of
              None \<Rightarrow> Inr s
            | Some chain \<Rightarrow>
                Inr (s\<lparr>sc_table := (sc_table s)[nat (spec_index key (sc_hash_groups s)) := chain],
                       sc_elements := sc_elements s - 1\<rparr>)) \<and>
         sc_insert s key v =
           sc_resize (s\<lparr>sc_table := (sc_table s)
                          [nat (spec_index key (sc_hash_groups s)) :=
                             sc_table s ! nat (spec_index key (sc_hash_groups s)) @ [(key, v)]],
                        sc_elements := sc_elements s + 1\<rparr>) \<and>
         (\<exists>s'. sc_insert s key v = Inr s') \<and>
         lp_get_probes t key =
           get_scan (lp_table t) (lp_hash_groups t) key
             (spec_index key (lp_hash_groups t)) (spec_index key (lp_hash_groups t)) 0 \<and>
         (\<exists>x. lp_get t key = Some (Inr x)) \<and>
         lp_remove t key =
           (case remove_scan (lp_table t) (lp_hash_groups t) key (spec_index key (lp_hash_groups t)) of
              None \<Rightarrow> None
            | Some (Inl e) \<Rightarrow> Some (Inl e)
            | Some (Inr index) \<Rightarrow>
                Some (Inr (t\<lparr>lp_elements := lp_elements t - 1,
                              lp_table := (lp_table t)[nat index := (0, 0)]\<rparr>))) \<and>
         lp_place t key v =
           (case insert_scan (lp_table t) (lp_hash_groups t) key (spec_index key (lp_hash_groups t)) of
              None \<Rightarrow> None
            | Some (Inl e) \<Rightarrow> Some (Inl e)
            | Some (Inr index) \<Rightarrow>
                Some (Inr (t\<lparr>lp_elements :=
                                (if fst (lp_table t ! nat index) \<noteq> key then lp_elements t + 1
                                 else lp_elements t),
                              lp_table := (lp_table t)[nat index := (key, v)]\<rparr>))) \<and>
         (\<forall>e. lp_remove t key \<noteq> Some (Inl e)) \<and>
         (\<forall>e. lp_insert t key v \<noteq> Some (Inl e))"
proof -
  note lp = home_index [OF assms(1,2,3)]
  note sc = home_index [OF assms(1,5,6)]
  have lp0: "lp_hash_groups t \<noteq> 0" and sc0: "sc_hash_groups s \<noteq> 0" using assms(2,5) by simp_all
  have get: "sc_get s key = Inr (first_match key (sc_table s ! nat (spec_index key (sc_hash_groups s))))"
    using sc(2) sc0 by (simp add: sc_get_def Let_def sc(1) [symmetric])
  have rem: "sc_remove s key =
           (case erase_first key (sc_table s ! nat (spec_index key (sc_hash_groups s))) of
              None \<Rightarrow> Inr s
            | Some chain \<Rightarrow>
                Inr (s\<lparr>sc_table := (sc_table s)[nat (spec_index key (sc_hash_groups s)) := chain],
                       sc_elements := sc_elements s - 1\<rparr>))"
    using sc(2) sc0 by (simp add: sc_remove_def Let_def sc(1) [symmetric] split: option.splits)
  define s1 where "s1 = s\<lparr>sc_table := (sc_table s)
                          [nat (spec_index key (sc_hash_groups s)) :=
                             sc_table s ! nat (spec_index key (sc_hash_groups s)) @ [(key, v)]],
                        sc_elements := sc_elements s + 1\<rparr>"
  have ins: "sc_insert s key v = sc_resize s1"
    using sc(2) sc0 by (simp add: sc_insert_def Let_def sc(1) [symmetric] s1_def)
  have "\<forall>c\<in>set (sc_table s1). \<forall>p\<in>set c. 0 \<le> fst p"
  proof
    fix c assume "c \<in> set (sc_table s1)"
    then have "c = sc_table s ! nat (spec_index key (sc_hash_groups s)) @ [(key, v)] \<or> c \<in> set (sc_table s)"
      unfolding s1_def
      using set_update_subset_insert [of "sc_table s" "nat (spec_index key (sc_hash_groups s))"] by auto
    moreover have "nat (c_rem key (sc_hash_groups s)) < length (sc_table s)"
      using sc(2) unfolding in_range_def by linarith
    then have "sc_table s ! nat (spec_index key (sc_hash_groups s)) \<in> set (sc_table s)"
      unfolding sc(1) [symmetric] by (rule nth_mem)
    ultimately show "\<forall>p\<in>set c. 0 \<le> fst p" using assms(1,7) by fastforce
  qed
  then have tot: "\<exists>s'. sc_resize s1 = Inr s'"
    using assms(5,6) by (intro sc_resize_total) (simp_all add: s1_def)
  have probes: "lp_get_probes t key =
           get_scan (lp_table t) (lp_hash_groups t) key
             (spec_index key (lp_hash_groups t)) (spec_index key (lp_hash_groups t)) 0"
    using lp0 by (simp add: lp_get_probes_def lp(1) [symmetric])
  have lget: "\<exists>x. lp_get t key = Some (Inr x)"
    using lp_get_run [OF assms(2,3,1)] by blast
  have lrem: "lp_remove t key =
           (case remove_scan (lp_table t) (lp_hash_groups t) key (spec_index key (lp_hash_groups t)) of
              None \<Rightarrow> None
            | Some (Inl e) \<Rightarrow> Some (Inl e)
            | Some (Inr index) \<Rightarrow>
                Some (Inr (t\<lparr>lp_elements := lp_elements t - 1,
                              lp_table := (lp_table t)[nat index := (0, 0)]\<rparr>)))"
    using lp0 by (simp add: lp_remove_def lp(1) [symmetric] split: option.splits sum.splits)
  have lplace: "lp_place t key v =
           (case insert_scan (lp_table t) (lp_hash_groups t) key (spec_index key (lp_hash_groups t)) of
              None \<Rightarrow> None
            | Some (Inl e) \<Rightarrow> Some (Inl e)
            | Some (Inr index) \<Rightarrow>
                Some (Inr (t\<lparr>lp_elements :=
                                (if fst (lp_table t ! nat index) \<noteq> key then lp_elements t + 1
                                 else lp_elements t),
                              lp_table := (lp_table t)[nat index := (key, v)]\<rparr>)))"
    using lp0 by (simp add: lp_place_def lp(1) [symmetric] split: option.splits sum.splits)
  have noerr: "\<forall>e. lp_remove t key \<noteq> Some (Inl e)" "\<forall>e. lp_insert t key v \<noteq> Some (Inl e)"
    using lp_remove_no_error [OF assms(1,2,3)] lp_insert_no_error [OF assms(1,2,3,4)] by blast+
  show ?thesis
    using lp(1,2) sc(1,2) get rem ins tot probes lget lrem lplace noerr
    unfolding s1_def by (intro conjI) (assumption | simp only:)+
qed

theorem bucket_access_in_bounds_witness:
  "(0::int) \<le> 7 \<and>
   c_rem 7 5 = 2 \<and> spec_index 7 5 = 2 \<and> c_rem 7 2 = 1 \<and> spec_index 7 2 = 1 \<and>
   in_range (lp_table \<lparr>lp_hash_groups = 5, lp_elements = 2,
                         lp_table = [(0, 0), (1, 100), (6, 600), (0, 0), (0, 0)]\<rparr>) (c_rem 7 5) \<and>
   in_range (sc_table \<lparr>sc_hash_groups = 2, sc_elements = 3,
                         sc_table = [[(4, 40)], [(1, 100), (7, 700)]]\<rparr>) (c_rem 7 2) \<and>
   sc_get \<lparr>sc_hash_groups = 2, sc_elements = 3, sc_table = [[(4, 40)], [(1, 100), (7, 700)]]\<rparr> 7
     = Inr 700 \<and>
   (\<exists>s'. sc_insert \<lparr>sc_hash_groups = 2, sc_elements = 3,
                         sc_table = [[(4, 40)], [(1, 100), (7, 700)]]\<rparr> 7 70 = Inr s') \<and>
   (\<exists>x. lp_get \<lparr>lp_hash_groups = 5, lp_elements = 2,
                     lp_table = [(0, 0), (1, 100), (6, 600), (0, 0), (0, 0)]\<rparr> 7 = Some (Inr x)) \<and>
   lp_remove \<lparr>lp_hash_groups = 5, lp_elements = 2,
              lp_table = [(0, 0), (1, 100), (6, 600), (0, 0), (0, 0)]\<rparr> 7 \<noteq> Some (Inl OutOfBounds) \<and>
   lp_insert \<lparr>lp_hash_groups = 5, lp_elements = 2,
              lp_table = [(0, 0), (1, 100), (6, 600), (0, 0), (0, 0)]\<rparr> 7 70 \<noteq> Some (Inl OutOfBounds)"
proof -
  define T where "T = \<lparr>lp_hash_groups = 5, lp_elements = 2,
                        lp_table = [(0, 0), (1, 100), (6, 600), (0, 0), (0, 0)]\<rparr>"
  define S where "S = \<lparr>sc_hash_groups = 2, sc_elements = 3,
                        sc_table = [[(4, 40)], [(1, 100), (7, 700)]]\<rparr>"
  have ev: "c_rem 7 5 = 2" "spec_index 7 5 = 2" "c_rem 7 2 = 1" "spec_index 7 2 = 1"
    by (simp_all add: c_rem_def spec_index_def)
  have hyp: "(0::int) \<le> 7" "0 < lp_hash_groups T" "length (lp_table T) = nat (lp_hash_groups T)"
    "\<forall>p\<in>set (lp_table T). 0 \<le> fst p"
    "0 < sc_hash_groups S" "length (sc_table S) = nat (sc_hash_groups S)"
    "\<forall>c\<in>set (sc_table S). \<forall>p\<in>set c. 0 \<le> fst p"
    by (simp_all add: T_def S_def)
  note c = bucket_access_in_bounds [OF hyp, of 70]
  have r1: "in_range (lp_table T) (c_rem 7 (lp_hash_groups T))"
    and r2: "in_range (sc_table S) (c_rem 7 (sc_hash_groups S))"
    and g: "sc_get S 7 = Inr (first_match 7 (sc_table S ! nat (spec_index 7 (sc_hash_groups S))))"
    and i: "\<exists>s'. sc_insert S 7 70 = Inr s'"
    and l: "\<exists>x. lp_get T 7 = Some (Inr x)"
    and nr: "\<forall>e. lp_remove T 7 \<noteq> Some (Inl e)"
    and ni: "\<forall>e. lp_insert T 7 70 \<noteq> Some (Inl e)"
    using c by blast+
  have g': "sc_get S 7 = Inr 700" using g by (simp add: S_def ev)
  have r1': "in_range (lp_table T) 2" using r1 by (simp add: T_def ev)
  have r2': "in_range (sc_table S) 1" using r2 by (simp add: S_def ev)
  have n': "lp_remove T 7 \<noteq> Some (Inl OutOfBounds)" "lp_insert T 7 70 \<noteq> Some (Inl OutOfBounds)"
    using nr ni by blast+
  show ?thesis
    unfolding T_def [symmetric] S_def [symmetric]
    by (intro conjI) (simp_all add: ev g' r1' r2' n' i l)
qed

text \<open>
  C4 as stated fails for a negative key: \<open>-1 % 5\<close> is \<open>-1\<close> in C++, not the normalised 4, and
  \<open>insert(-1, 7)\<close> on a table of 5 buckets indexes the vector at \<open>-1\<close> in both classes.
\<close>

theorem bucket_index_negative_key_counterexample:
  "c_rem (- 1) 5 = - 1 \<and> c_rem (c_rem (- 1) 5 + 5) 5 = 4 \<and>
   sc_new_run 5 [Insert (- 1) 7] = Inl OutOfBounds \<and>
   lp_new_run 5 [Insert (- 1) 7] = Some (Inl OutOfBounds)"
  by code_simp

text \<open>
  C5. On a table whose vector has \<open>hash_groups > 0\<close> slots and for a non-negative key,
  \<open>get\<close> returns after reading \<open>d + 1 \<le> hash_groups\<close> slots: the slots before the last one
  read are occupied by other keys, and the value is that of the last slot when it holds the
  key, and \<open>-1\<close> when it is empty or when the next index would be the start index again.
\<close>

theorem lp_get_one_loop:
  assumes "0 < lp_hash_groups t" "length (lp_table t) = nat (lp_hash_groups t)" "0 \<le> key"
  shows "\<exists>v d. lp_get_probes t key = Some (Inr (v, d + 1)) \<and> int (d + 1) \<le> lp_hash_groups t \<and>
           lp_get t key = Some (Inr v) \<and>
           (\<forall>d'<d. fst (slot_at (lp_table t) key d') \<noteq> 0 \<and> fst (slot_at (lp_table t) key d') \<noteq> key) \<and>
           get_result (slot_at (lp_table t) key d) key (int (d + 1) = lp_hash_groups t) v"
proof -
  obtain v d where vd: "d < length (lp_table t)" "lp_get_probes t key = Some (Inr (v, d + 1))"
    "lp_get t key = Some (Inr v)"
    "\<forall>d'<d. fst (slot_at (lp_table t) key d') \<noteq> 0 \<and> fst (slot_at (lp_table t) key d') \<noteq> key"
    "get_result (slot_at (lp_table t) key d) key (d + 1 = length (lp_table t)) v"
    using lp_get_run [OF assms] by blast
  have "int (d + 1) \<le> lp_hash_groups t" using vd(1) assms by simp
  moreover have "(d + 1 = length (lp_table t)) = (int (d + 1) = lp_hash_groups t)"
    using assms by auto
  ultimately show ?thesis using vd by (intro exI [of _ v] exI [of _ d]) simp
qed

theorem lp_get_one_loop_witness:
  "0 < lp_hash_groups \<lparr>lp_hash_groups = 3, lp_elements = 3, lp_table = [(3, 30), (1, 10), (4, 40)]\<rparr> \<and>
   length (lp_table \<lparr>lp_hash_groups = 3, lp_elements = 3, lp_table = [(3, 30), (1, 10), (4, 40)]\<rparr>)
     = nat (lp_hash_groups \<lparr>lp_hash_groups = 3, lp_elements = 3, lp_table = [(3, 30), (1, 10), (4, 40)]\<rparr>) \<and>
   (0::int) \<le> 7 \<and>
   (\<exists>v d. lp_get_probes \<lparr>lp_hash_groups = 3, lp_elements = 3, lp_table = [(3, 30), (1, 10), (4, 40)]\<rparr> 7
             = Some (Inr (v, d + 1)) \<and> int (d + 1) \<le> 3) \<and>
   lp_get_probes \<lparr>lp_hash_groups = 3, lp_elements = 3, lp_table = [(3, 30), (1, 10), (4, 40)]\<rparr> 7
     = Some (Inr (- 1, 3))"
proof -
  have "lp_get_probes \<lparr>lp_hash_groups = 3, lp_elements = 3, lp_table = [(3, 30), (1, 10), (4, 40)]\<rparr> 7
     = Some (Inr (- 1, 3))" by code_simp
  then show ?thesis
    using lp_get_one_loop [of "\<lparr>lp_hash_groups = 3, lp_elements = 3, lp_table = [(3, 30), (1, 10), (4, 40)]\<rparr>" 7]
    by simp
qed

text \<open>
  C6 fails on the probing table once a remove has left a hole. On 5 slots, after
  \<open>insert(4, 40)\<close>, \<open>insert(9, 90)\<close>, \<open>remove(4)\<close> key 9 sits in slot 0 behind its empty home
  slot 4. \<open>insert(9, 1)\<close> stops at the hole, takes 9 for a new key, raises \<open>elements\<close> and
  writes a second pair; \<open>insert(9, 2)\<close> then updates that second pair. The table ends with two
  entries for key 9.
\<close>

theorem lp_insert_twice_after_remove:
  "lp_new_run 5 [Insert 4 40, Insert 9 90, Remove 4] =
     Some (Inr \<lparr>lp_hash_groups = 5, lp_elements = 1,
                lp_table = [(9, 90), (0, 0), (0, 0), (0, 0), (0, 0)]\<rparr>) \<and>
   lp_insert \<lparr>lp_hash_groups = 5, lp_elements = 1,
              lp_table = [(9, 90), (0, 0), (0, 0), (0, 0), (0, 0)]\<rparr> 9 1 =
     Some (Inr \<lparr>lp_hash_groups = 5, lp_elements = 2,
                lp_table = [(9, 90), (0, 0), (0, 0), (0, 0), (9, 1)]\<rparr>) \<and>
   lp_insert \<lparr>lp_hash_groups = 5, lp_elements = 2,
              lp_table = [(9, 90), (0, 0), (0, 0), (0, 0), (9, 1)]\<rparr> 9 2 =
     Some (Inr \<lparr>lp_hash_groups = 5, lp_elements = 2,
                lp_table = [(9, 90), (0, 0), (0, 0), (0, 0), (9, 2)]\<rparr>) \<and>
   [(9, 90), (0, 0), (0, 0), (0, 0), (9, 2 :: int)] ! 0 = (9 :: int, 90) \<and>
   [(9, 90), (0, 0), (0, 0), (0, 0), (9, 2 :: int)] ! 4 = (9 :: int, 2)"
  by code_simp

text \<open>
  C7. Take the chained table reached from a fresh table of \<open>n > 0\<close> buckets by any inserts and
  removes of non-negative keys other than \<open>k\<close>, and \<open>k \<ge> 0\<close>. Inserting \<open>(k, v1)\<close> and then
  \<open>(k, v2)\<close> raises \<open>elements\<close> by two and leaves the chain of \<open>k\<close> with the two values
  \<open>v1, v2\<close> in this order; \<open>get(k)\<close> answers \<open>v1\<close>. One \<open>remove(k)\<close> then lowers \<open>elements\<close> by
  one and leaves the value \<open>v2\<close>, which \<open>get(k)\<close> answers.
\<close>

theorem sc_insert_twice:
  assumes "0 < n" "\<forall>x\<in>set ops. 0 \<le> op_key x \<and> op_key x \<noteq> k" "0 \<le> k"
  shows "\<exists>s0 s1 s2 s3. sc_new_run n ops = Inr s0 \<and>
           sc_insert s0 k v1 = Inr s1 \<and> sc_insert s1 k v2 = Inr s2 \<and>
           sc_elements s2 = sc_elements s0 + 2 \<and> sc_values s2 k = [v1, v2] \<and>
           sc_get s2 k = Inr v1 \<and>
           sc_remove s2 k = Inr s3 \<and> sc_elements s3 = sc_elements s0 + 1 \<and>
           sc_values s3 k = [v2] \<and> sc_get s3 k = Inr v2"
proof -
  have wf: "0 < sc_hash_groups s" "length (sc_table s) = nat (sc_hash_groups s)" if "sc_inv s" for s
    using that unfolding sc_inv_iff by blast+
  obtain c where c: "sc_construct n = Inr c" "sc_inv c" "\<forall>k\<ge>0. sc_values c k = []"
    using sc_construct_inv [OF assms(1)] by blast
  obtain s0 where s0: "sc_run c ops = Inr s0" "sc_inv s0"
    "\<forall>k\<ge>0. (\<forall>x\<in>set ops. op_key x \<noteq> k) \<longrightarrow> sc_values s0 k = sc_values c k"
    using sc_run_inv [OF c(2), of ops] assms(2) by blast
  have v0: "sc_values s0 k = []" using s0(3) c(3) assms(2,3) by simp
  obtain s1 where s1: "sc_insert s0 k v1 = Inr s1" "sc_inv s1" "sc_elements s1 = sc_elements s0 + 1"
    "\<forall>k'\<ge>0. sc_values s1 k' = sc_values s0 k' @ (if k' = k then [v1] else [])"
    using sc_insert_inv [OF s0(2) assms(3), of v1] by blast
  obtain s2 where s2: "sc_insert s1 k v2 = Inr s2" "sc_inv s2" "sc_elements s2 = sc_elements s1 + 1"
    "\<forall>k'\<ge>0. sc_values s2 k' = sc_values s1 k' @ (if k' = k then [v2] else [])"
    using sc_insert_inv [OF s1(2) assms(3), of v2] by blast
  obtain s3 where s3: "sc_remove s2 k = Inr s3" "sc_inv s3"
    "sc_elements s3 = (if sc_values s2 k = [] then sc_elements s2 else sc_elements s2 - 1)"
    "\<forall>k'\<ge>0. sc_values s3 k' = (if k' = k then tl (sc_values s2 k') else sc_values s2 k')"
    using sc_remove_inv [OF s2(2) assms(3)] by blast
  have v2: "sc_values s2 k = [v1, v2]" using s2(4) s1(4) v0 assms(3) by simp
  have v3: "sc_values s3 k = [v2]" using s3(4) v2 assms(3) by simp
  have g2: "sc_get s2 k = Inr v1" unfolding sc_get_values [OF wf [OF s2(2)] assms(3)] by (simp add: v2)
  have g3: "sc_get s3 k = Inr v2" unfolding sc_get_values [OF wf [OF s3(2)] assms(3)] by (simp add: v3)
  have e2: "sc_elements s2 = sc_elements s0 + 2" using s1(3) s2(3) by simp
  have e3: "sc_elements s3 = sc_elements s0 + 1" using s3(3) v2 e2 by simp
  have "sc_new_run n ops = Inr s0" using c(1) s0(1) by (simp add: sc_new_run_def)
  then show ?thesis using s1(1) s2(1) s3(1) e2 e3 v2 v3 g2 g3 by blast
qed

theorem sc_insert_twice_witness:
  "(0::int) < 2 \<and> (0::int) \<le> 3 \<and>
   (\<exists>s0 s1 s2 s3. sc_new_run 2 [Insert 1 100, Insert 4 400, Remove 1] = Inr s0 \<and>
      sc_insert s0 3 30 = Inr s1 \<and> sc_insert s1 3 31 = Inr s2 \<and>
      sc_elements s2 = sc_elements s0 + 2 \<and> sc_values s2 3 = [30, 31] \<and> sc_get s2 3 = Inr 30 \<and>
      sc_remove s2 3 = Inr s3 \<and> sc_elements s3 = sc_elements s0 + 1 \<and>
      sc_values s3 3 = [31] \<and> sc_get s3 3 = Inr 31)"
  using sc_insert_twice [of 2 "[Insert 1 100, Insert 4 400, Remove 1]" 3 30 31] by simp

text \<open>
  C8. Probing table (vector of \<open>hash_groups > 0\<close> slots, non-negative key held by some slot):
  \<open>remove(key)\<close> returns and \<open>get(key)\<close> then answers \<open>-1\<close>. Chained table (vector of
  \<open>hash_groups > 0\<close> chains, non-negative key): \<open>remove(key)\<close> returns and \<open>get(key)\<close> then
  answers with the second value the chain held for the key, and with \<open>-1\<close> when the chain held
  at most one.
\<close>

theorem remove_then_get:
  assumes "0 \<le> key"
    and "0 < lp_hash_groups t" "length (lp_table t) = nat (lp_hash_groups t)"
    and "key \<in> fst ` set (lp_table t)"
    and "0 < sc_hash_groups s" "length (sc_table s) = nat (sc_hash_groups s)"
  shows "(\<exists>t'. lp_remove t key = Some (Inr t') \<and> lp_get t' key = Some (Inr (- 1))) \<and>
         (\<exists>s'. sc_remove s key = Inr s' \<and>
            sc_get s' key =
              Inr (case chain_values key (sc_table s ! nat (c_rem key (sc_hash_groups s))) of
                     [] \<Rightarrow> - 1 | [v] \<Rightarrow> - 1 | v # v' # _ \<Rightarrow> v'))"
proof -
  have "home (length (sc_table s)) key = nat (c_rem key (sc_hash_groups s))"
    using assms(5,6) by (simp add: home_def)
  moreover have "(case tl vs of [] \<Rightarrow> - 1 | v # _ \<Rightarrow> v) =
                 (case vs of [] \<Rightarrow> - 1 | [v] \<Rightarrow> - 1 | v # v' # _ \<Rightarrow> v')" for vs :: "int list"
    by (simp split: list.splits)
  ultimately show ?thesis
    using lp_remove_then_get [OF assms(2,3,1,4)] sc_remove_then_get [OF assms(5,6,1)] by simp
qed

theorem remove_then_get_witness:
  "(0::int) \<le> 1 \<and>
   0 < lp_hash_groups \<lparr>lp_hash_groups = 5, lp_elements = 2, lp_table = [(0, 0), (1, 100), (6, 600), (0, 0), (0, 0)]\<rparr> \<and>
   length (lp_table \<lparr>lp_hash_groups = 5, lp_elements = 2, lp_table = [(0, 0), (1, 100), (6, 600), (0, 0), (0, 0)]\<rparr>) = nat 5 \<and>
   (1::int) \<in> fst ` set [(0, 0), (1, 100), (6, 600), (0, 0), (0, 0::int)] \<and>
   0 < sc_hash_groups \<lparr>sc_hash_groups = 2, sc_elements = 3, sc_table = [[], [(1, 100), (3, 300), (1, 101)]]\<rparr> \<and>
   length (sc_table \<lparr>sc_hash_groups = 2, sc_elements = 3, sc_table = [[], [(1, 100), (3, 300), (1, 101)]]\<rparr>) = nat 2 \<and>
   (\<exists>t'. lp_remove \<lparr>lp_hash_groups = 5, lp_elements = 2, lp_table = [(0, 0), (1, 100), (6, 600), (0, 0), (0, 0)]\<rparr> 1
            = Some (Inr t') \<and> lp_get t' 1 = Some (Inr (- 1))) \<and>
   (\<exists>s'. sc_remove \<lparr>sc_hash_groups = 2, sc_elements = 3, sc_table = [[], [(1, 100), (3, 300), (1, 101)]]\<rparr> 1
            = Inr s' \<and> sc_get s' 1 = Inr 101)"
  using remove_then_get [of 1
      "\<lparr>lp_hash_groups = 5, lp_elements = 2, lp_table = [(0, 0), (1, 100), (6, 600), (0, 0), (0, 0)]\<rparr>"
      "\<lparr>sc_hash_groups = 2, sc_elements = 3, sc_table = [[], [(1, 100), (3, 300), (1, 101)]]\<rparr>"]
  by (simp add: chain_values_def c_rem_def)

text \<open>
  C9 fails on the probing table: \<open>remove(0)\<close> on a fresh table of 5 slots takes the first
  empty slot for an entry with key 0, "clears" it and decrements \<open>elements\<close> to \<open>-1\<close>, while the
  table holds no entry at all.
\<close>

theorem lp_remove_zero_elements_negative:
  "lp_new_run 5 [Remove 0] =
     Some (Inr \<lparr>lp_hash_groups = 5, lp_elements = - 1,
                lp_table = [(0, 0), (0, 0), (0, 0), (0, 0), (0, 0)]\<rparr>) \<and>
   occupied [(0, 0), (0, 0), (0, 0), (0, 0), (0, 0)] = 0"
  by code_simp

text \<open>
  C10. On a probing table whose vector has \<open>hash_groups > 0\<close> slots, all keys non-negative and
  at least one slot empty, \<open>insert(0, v)\<close> returns without an error, leaves \<open>elements\<close> and the
  stored entries as they were, writes \<open>(0, v)\<close> into a slot, which therefore still counts as
  empty, and \<open>get(0)\<close> answers \<open>-1\<close> afterwards.
\<close>

theorem lp_insert_zero_key:
  assumes "0 < lp_hash_groups t" "length (lp_table t) = nat (lp_hash_groups t)"
    and "\<forall>p\<in>set (lp_table t). 0 \<le> fst p" "\<exists>p\<in>set (lp_table t). fst p = 0"
  shows "\<exists>t'. lp_insert t 0 v = Some (Inr t') \<and> lp_elements t' = lp_elements t \<and>
           stored (lp_table t') = stored (lp_table t) \<and> (0, v) \<in> set (lp_table t') \<and>
           lp_get t' 0 = Some (Inr (- 1))"
proof -
  have "\<exists>t1. (if load_reached (lp_elements t) (lp_hash_groups t) then lp_resize t else Some (Inr t))
               = Some (Inr t1) \<and>
             0 < lp_hash_groups t1 \<and> length (lp_table t1) = nat (lp_hash_groups t1) \<and>
             lp_elements t1 = lp_elements t \<and> stored (lp_table t1) = stored (lp_table t) \<and>
             (\<exists>k<length (lp_table t1). fst (lp_table t1 ! k) = 0)"
  proof (cases "load_reached (lp_elements t) (lp_hash_groups t)")
    case True
    obtain nt where nt: "lp_resize t = Some (Inr (t\<lparr>lp_hash_groups := lp_hash_groups t * 2, lp_table := nt\<rparr>))"
      "length nt = nat (lp_hash_groups t * 2)" "stored nt = stored (lp_table t)"
      using lp_resize_run [OF assms(1,2,3)] by blast
    have "size (stored (lp_table t)) \<le> length (lp_table t)" by (rule stored_le_length)
    then have "size (stored nt) < length nt" using nt(2,3) assms(1,2) by simp
    then have "\<exists>k<length nt. fst (nt ! k) = 0" by (rule exists_empty)
    then show ?thesis using True nt assms(1) by simp
  next
    case False
    have "\<exists>k<length (lp_table t). fst (lp_table t ! k) = 0"
      using assms(4) by (metis in_set_conv_nth)
    then show ?thesis using False assms(1,2) by simp
  qed
  then obtain t1 where t1:
    "(if load_reached (lp_elements t) (lp_hash_groups t) then lp_resize t else Some (Inr t)) = Some (Inr t1)"
    "0 < lp_hash_groups t1" "length (lp_table t1) = nat (lp_hash_groups t1)"
    "lp_elements t1 = lp_elements t" "stored (lp_table t1) = stored (lp_table t)"
    "\<exists>k<length (lp_table t1). fst (lp_table t1 ! k) = 0"
    by blast
  have ins: "lp_insert t 0 v = lp_place t1 0 v"
    using t1(1) by (simp add: lp_insert_def split: if_splits)
  define n where "n = length (lp_table t1)"
  obtain d where d: "d < n" "fst (slot_at (lp_table t1) 0 d) = 0 \<or> fst (slot_at (lp_table t1) 0 d) = 0"
    "lp_place t1 0 v =
       Some (Inr (t1\<lparr>lp_elements := (if fst (slot_at (lp_table t1) 0 d) \<noteq> 0 then lp_elements t1 + 1
                                       else lp_elements t1),
                     lp_table := (lp_table t1)[(home n 0 + d) mod n := (0, v)]\<rparr>))"
    using lp_place_run [OF t1(2,3), of 0 v] t1(6) unfolding n_def by blast
  define j where "j = (home n 0 + d) mod n"
  define t' where "t' = t1\<lparr>lp_table := (lp_table t1)[j := (0, v)]\<rparr>"
  have "0 < n" using d(1) by simp
  then have "j < n" by (simp add: j_def)
  then have j: "j < length (lp_table t1)" "fst (lp_table t1 ! j) = 0"
    using d(2) by (simp_all add: j_def n_def slot_at_def)
  have place: "lp_place t1 0 v = Some (Inr t')"
    using d(2,3) by (simp add: t'_def j_def)
  have st: "stored (lp_table t') = stored (lp_table t)"
    using stored_update_empty [OF j, of "(0, v)"] t1(5) by (simp add: t'_def)
  have mem: "(0, v) \<in> set (lp_table t')" using j(1) by (simp add: t'_def set_update_memI)
  have wf': "0 < lp_hash_groups t'" "length (lp_table t') = nat (lp_hash_groups t')"
    using t1(2,3) by (simp_all add: t'_def)
  obtain x e where x: "lp_get t' 0 = Some (Inr x)"
    "get_result (slot_at (lp_table t') 0 e) 0 (e + 1 = length (lp_table t')) x"
    using lp_get_run [OF wf', of 0] by auto
  have "x = - 1" using x(2) by (auto simp: get_result_def)
  then show ?thesis
    using ins place st mem x(1) t1(4) by (intro exI [of _ t']) (simp add: t'_def)
qed

theorem lp_insert_zero_key_witness:
  "0 < lp_hash_groups \<lparr>lp_hash_groups = 3, lp_elements = 2, lp_table = [(3, 30), (1, 10), (0, 0)]\<rparr> \<and>
   length (lp_table \<lparr>lp_hash_groups = 3, lp_elements = 2, lp_table = [(3, 30), (1, 10), (0, 0)]\<rparr>) = nat 3 \<and>
   (\<exists>t'. lp_insert \<lparr>lp_hash_groups = 3, lp_elements = 2, lp_table = [(3, 30), (1, 10), (0, 0)]\<rparr> 0 7
            = Some (Inr t') \<and> lp_elements t' = 2 \<and>
          stored (lp_table t') = stored [(3, 30), (1, 10), (0, 0)] \<and> (0, 7) \<in> set (lp_table t') \<and>
          lp_get t' 0 = Some (Inr (- 1)))"
  using lp_insert_zero_key [of "\<lparr>lp_hash_groups = 3, lp_elements = 2, lp_table = [(3, 30), (1, 10), (0, 0)]\<rparr>" 7]
  by simp

end
